theory Spec2Isabelle
  imports Main "HOL-Library.Sublist"
begin

section \<open>Python string operations used by the cleaning stage\<close>

text \<open>
  The cleaning functions of \<^verbatim>\<open>2_cleaning.py\<close> work on reaction strings with
  \<^verbatim>\<open>str.split\<close>, \<^verbatim>\<open>in\<close>, \<^verbatim>\<open>str.replace\<close> and \<^verbatim>\<open>str.join\<close>.
  These are modelled on \<open>string\<close> (a list of characters) with Python's semantics:
  the leftmost occurrence is found first and occurrences do not overlap.
\<close>

datatype py_error =
  IndexError | KeyError | AttributeError | ArgumentError | TemplateProblem | ExtractorFailure

text \<open>\<^verbatim>\<open>s.find(sub)\<close>: the index of the leftmost occurrence of \<open>sub\<close> in \<open>s\<close>.\<close>

fun find_sub :: "string \<Rightarrow> string \<Rightarrow> nat option" where
  "find_sub sub [] = (if sub = [] then Some 0 else None)"
| "find_sub sub (c # cs) =
     (if prefix sub (c # cs) then Some 0 else map_option Suc (find_sub sub cs))"

text \<open>\<^verbatim>\<open>sub in s\<close>.\<close>

definition contains :: "string \<Rightarrow> string \<Rightarrow> bool" where
  "contains sub s = (find_sub sub s \<noteq> None)"

lemma find_sub_bound:
  "find_sub sub s = Some i \<Longrightarrow> i + length sub \<le> length s"
proof (induction s arbitrary: i)
  case Nil
  then show ?case by (simp split: if_splits)
next
  case (Cons c cs)
  show ?case
  proof (cases "prefix sub (c # cs)")
    case True
    with Cons.prems have "i = 0" by simp
    with prefix_length_le [OF True] show ?thesis by simp
  next
    case False
    with Cons.prems obtain j where "find_sub sub cs = Some j" "i = Suc j" by auto
    with Cons.IH show ?thesis by fastforce
  qed
qed

text \<open>
  \<^verbatim>\<open>s.split(sep)\<close>. Python raises \<^verbatim>\<open>ValueError\<close> for an empty separator; every
  call in the source passes a non-empty literal, and the model returns \<open>[s]\<close> there.
\<close>

function split :: "string \<Rightarrow> string \<Rightarrow> string list" where
  "split sep s =
     (case find_sub sep s of
        None \<Rightarrow> [s]
      | Some i \<Rightarrow>
          if sep = [] then [s]
          else take i s # split sep (drop (i + length sep) s))"
  by pat_completeness auto
termination
proof (relation "measure (\<lambda>(sep, s). length s)")
  show "wf (measure (\<lambda>(sep, s). length s))" by simp
next
  fix sep s :: string and i :: nat
  assume f: "find_sub sep s = Some i" and ne: "sep \<noteq> []"
  from find_sub_bound [OF f] ne have "0 < length s" by (cases s) auto
  with ne show "((sep, drop (i + length sep) s), sep, s) \<in> measure (\<lambda>(sep, s). length s)"
    by (cases sep) auto
qed

declare split.simps [simp del]

text \<open>\<^verbatim>\<open>sep.join(xs)\<close>.\<close>

fun join :: "string \<Rightarrow> string list \<Rightarrow> string" where
  "join sep [] = []"
| "join sep [x] = x"
| "join sep (x # y # ys) = x @ sep @ join sep (y # ys)"

text \<open>
  \<^verbatim>\<open>s.replace(old, new)\<close>: every non-overlapping occurrence of \<open>old\<close>, from the
  left. For the empty \<open>old\<close> Python puts \<open>new\<close> before every character and at the end.
\<close>

function replace :: "string \<Rightarrow> string \<Rightarrow> string \<Rightarrow> string" where
  "replace old new s =
     (if old = [] then new @ concat (map (\<lambda>c. c # new) s)
      else case find_sub old s of
        None \<Rightarrow> s
      | Some i \<Rightarrow> take i s @ new @ replace old new (drop (i + length old) s))"
  by pat_completeness auto
termination
proof (relation "measure (\<lambda>(old, new, s). length s)")
  show "wf (measure (\<lambda>(old, new, s). length s))" by simp
next
  fix old new s :: string and i :: nat
  assume ne: "old \<noteq> []" and f: "find_sub old s = Some i"
  from find_sub_bound [OF f] ne have "0 < length s" by (cases s) auto
  with ne show "((old, new, drop (i + length old) s), old, new, s)
      \<in> measure (\<lambda>(old, new, s). length s)"
    by (cases old) auto
qed

declare replace.simps [simp del]

text \<open>Python list indexing \<^verbatim>\<open>xs[i]\<close> for \<open>i \<ge> 0\<close>: \<^verbatim>\<open>IndexError\<close> out of range.\<close>

definition item :: "'a list \<Rightarrow> nat \<Rightarrow> py_error + 'a" where
  "item xs i = (if i < length xs then Inr (xs ! i) else Inl IndexError)"


subsection \<open>Facts about searching and splitting\<close>

lemma find_sub_SomeD:
  "find_sub sub s = Some i \<Longrightarrow> prefix sub (drop i s) \<and> (\<forall>j<i. \<not> prefix sub (drop j s))"
proof (induction s arbitrary: i)
  case Nil
  then show ?case by (simp split: if_splits)
next
  case (Cons c cs)
  show ?case
  proof (cases "prefix sub (c # cs)")
    case True
    with Cons.prems show ?thesis by simp
  next
    case False
    with Cons.prems obtain k where k: "find_sub sub cs = Some k" "i = Suc k" by auto
    from Cons.IH [OF k(1)] have ih: "prefix sub (drop k cs)" "\<forall>j<k. \<not> prefix sub (drop j cs)"
      by simp_all
    have "\<not> prefix sub (drop j (c # cs))" if "j < i" for j
    proof (cases j)
      case 0
      with False show ?thesis by simp
    next
      case (Suc j')
      with that k(2) ih(2) show ?thesis by simp
    qed
    with ih(1) k(2) show ?thesis by simp
  qed
qed

lemma find_sub_SomeI:
  "prefix sub (drop i s) \<Longrightarrow> i \<le> length s \<Longrightarrow> (\<forall>j<i. \<not> prefix sub (drop j s))
    \<Longrightarrow> find_sub sub s = Some i"
proof (induction s arbitrary: i)
  case Nil
  then show ?case by simp
next
  case (Cons c cs)
  show ?case
  proof (cases i)
    case 0
    with Cons.prems show ?thesis by simp
  next
    case (Suc k)
    with Cons.prems have np: "\<not> prefix sub (c # cs)" by fastforce
    have "\<forall>j<k. \<not> prefix sub (drop j cs)"
    proof (intro allI impI)
      fix j assume "j < k"
      then have "Suc j < i" using Suc by simp
      with Cons.prems(3) have "\<not> prefix sub (drop (Suc j) (c # cs))" by blast
      then show "\<not> prefix sub (drop j cs)" by simp
    qed
    moreover from Cons.prems Suc have "prefix sub (drop k cs)" "k \<le> length cs" by simp_all
    ultimately have "find_sub sub cs = Some k" using Cons.IH by blast
    with np Suc show ?thesis by simp
  qed
qed

lemma find_sub_NoneD:
  "find_sub sub s = None \<Longrightarrow> j \<le> length s \<Longrightarrow> \<not> prefix sub (drop j s)"
proof (induction s arbitrary: j)
  case Nil
  then show ?case by (simp split: if_splits)
next
  case (Cons c cs)
  from Cons.prems(1) have np: "\<not> prefix sub (c # cs)" and n: "find_sub sub cs = None"
    by (auto split: if_splits)
  show ?case
  proof (cases j)
    case 0
    with np show ?thesis by simp
  next
    case (Suc k)
    with Cons.prems(2) Cons.IH [OF n, of k] show ?thesis by simp
  qed
qed

lemma split_not_Nil: "split sep s \<noteq> []"
  by (subst split.simps) (simp split: option.splits)

lemma split_None: "find_sub sep s = None \<Longrightarrow> split sep s = [s]"
  by (subst split.simps) simp

lemma split_Some:
  "find_sub sep s = Some i \<Longrightarrow> sep \<noteq> [] \<Longrightarrow>
     split sep s = take i s # split sep (drop (i + length sep) s)"
  by (subst split.simps) simp

lemma find_sub_char_None: "c \<notin> set s \<Longrightarrow> find_sub (c # sub) s = None"
  by (induction s) auto

lemma find_sub_char_take: "find_sub [c] s = Some i \<Longrightarrow> c \<notin> set (take i s)"
  by (induction s arbitrary: i) (auto split: if_splits)

lemma find_sub_char_None_iff: "find_sub [c] s = None \<longleftrightarrow> c \<notin> set s"
  by (induction s) auto

lemma split_char_free_aux:
  "x \<in> set (split sep s) \<Longrightarrow> sep = [c] \<Longrightarrow> c \<notin> set x"
proof (induction sep s rule: split.induct)
  case (1 sep s)
  show ?case
  proof (cases "find_sub sep s")
    case None
    with "1.prems" show ?thesis by (simp add: split_None find_sub_char_None_iff)
  next
    case (Some i)
    with "1.prems" have "x = take i s \<or> x \<in> set (split sep (drop (i + length sep) s))"
      by (simp add: split_Some)
    then show ?thesis
    proof
      assume "x = take i s"
      with find_sub_char_take [of c s i] Some "1.prems" show ?thesis by simp
    next
      assume "x \<in> set (split sep (drop (i + length sep) s))"
      with "1.IH" [OF Some] "1.prems" show ?thesis by simp
    qed
  qed
qed

lemma split_char_free: "x \<in> set (split [c] s) \<Longrightarrow> c \<notin> set x"
  by (rule split_char_free_aux) simp_all

lemma find_sub_after_free:
  "c \<notin> set x \<Longrightarrow> find_sub (c # sub) (x @ (c # sub) @ r) = Some (length x)"
  by (induction x) auto

lemma split_two:
  assumes "c \<notin> set x" "c \<notin> set y"
  shows "split (c # sub) (x @ (c # sub) @ y) = [x, y]"
proof -
  have "split (c # sub) (x @ (c # sub) @ y) = x # split (c # sub) y"
    using split_Some [OF find_sub_after_free [OF assms(1), of sub y]] by simp
  also have "split (c # sub) y = [y]"
    by (rule split_None) (rule find_sub_char_None [OF assms(2)])
  finally show ?thesis .
qed

lemma split_length_contains:
  "sep \<noteq> [] \<Longrightarrow> contains sep s \<longleftrightarrow> 2 \<le> length (split sep s)"
proof (cases "find_sub sep s")
  case None
  then show ?thesis by (simp add: contains_def split_None)
next
  case (Some i)
  assume "sep \<noteq> []"
  with Some split_not_Nil [of sep "drop (i + length sep) s"] show ?thesis
    by (cases "split sep (drop (i + length sep) s)") (simp_all add: contains_def split_Some)
qed

lemma item_split_1_missing:
  "sep \<noteq> [] \<Longrightarrow> \<not> contains sep s \<Longrightarrow> item (split sep s) 1 = Inl IndexError"
  by (simp add: split_length_contains item_def)

lemma item_split_1_present:
  "sep \<noteq> [] \<Longrightarrow> contains sep s \<Longrightarrow> item (split sep s) 1 = Inr (split sep s ! 1)"
  by (simp add: split_length_contains item_def)

lemma find_sub_decomp:
  assumes "find_sub sep s = Some i"
  shows "s = take i s @ sep @ drop (i + length sep) s"
proof -
  from find_sub_SomeD [OF assms] have "prefix sep (drop i s)" by simp
  then obtain t where t: "drop i s = sep @ t" by (auto simp: prefix_def)
  then have "drop (length sep) (drop i s) = t" by simp
  then have "t = drop (i + length sep) s" by (simp add: add.commute)
  with t have "drop i s = sep @ drop (i + length sep) s" by simp
  then have "take i s @ drop i s = take i s @ sep @ drop (i + length sep) s" by simp
  then show ?thesis by simp
qed

lemma prefix_append_long:
  "length sep \<le> length u \<Longrightarrow> prefix sep (u @ X) \<longleftrightarrow> prefix sep u"
  by (auto simp: prefix_append)

lemma find_sub_extend:
  assumes "find_sub sep s = Some i" "sep \<noteq> []"
  shows "find_sub sep (take i s @ sep @ X) = Some i"
proof (rule find_sub_SomeI)
  from find_sub_bound [OF assms(1)] have il: "i \<le> length s" by simp
  then have lt: "length (take i s) = i" by simp
  then show "prefix sep (drop i (take i s @ sep @ X))" by simp
  from lt show "i \<le> length (take i s @ sep @ X)" by simp
  show "\<forall>j<i. \<not> prefix sep (drop j (take i s @ sep @ X))"
  proof (intro allI impI)
    fix j assume j: "j < i"
    from find_sub_SomeD [OF assms(1)] j have np: "\<not> prefix sep (drop j s)" by simp
    have s: "s = take i s @ sep @ drop (i + length sep) s" by (rule find_sub_decomp [OF assms(1)])
    let ?u = "drop j (take i s) @ sep"
    have len: "length sep \<le> length ?u" by simp
    have "drop j s = ?u @ drop (i + length sep) s"
    proof -
      have "drop j s = drop j (take i s @ sep @ drop (i + length sep) s)" using s by simp
      also have "\<dots> = drop j (take i s) @ sep @ drop (i + length sep) s"
        using j lt by simp
      finally show ?thesis by simp
    qed
    with np prefix_append_long [OF len] have "\<not> prefix sep ?u" by simp
    with prefix_append_long [OF len, of X] have "\<not> prefix sep (?u @ X)" by simp
    moreover have "drop j (take i s @ sep @ X) = ?u @ X" using j lt by simp
    ultimately show "\<not> prefix sep (drop j (take i s @ sep @ X))" by simp
  qed
qed

lemma split_hd_stable:
  assumes "find_sub sep s = Some i" "sep \<noteq> []"
  shows "hd (split sep (take i s @ sep @ X)) = take i s"
proof -
  from find_sub_bound [OF assms(1)] have "length (take i s) = i" by simp
  with split_Some [OF find_sub_extend [OF assms, of X] assms(2)] show ?thesis by simp
qed

lemma takeWhile_prefix:
  "prefix p s \<Longrightarrow> c \<in> set p \<Longrightarrow> takeWhile (\<lambda>x. x \<noteq> c) s = takeWhile (\<lambda>x. x \<noteq> c) p"
  by (auto simp: prefix_def takeWhile_append1)

lemma find_sub_first_marker:
  "c \<in> set p \<Longrightarrow> c \<notin> set pre \<Longrightarrow> find_sub p (pre @ p @ z) = Some (length pre)"
proof (induction pre)
  case Nil
  then obtain a l where al: "p @ z = a # l" by (cases "p @ z") auto
  have "prefix p (p @ z)" by simp
  with al show ?case by simp
next
  case (Cons x pre)
  have "\<not> prefix p (x # pre @ p @ z)"
  proof
    assume pr: "prefix p (x # pre @ p @ z)"
    from takeWhile_prefix [OF pr Cons.prems(1)]
    have "takeWhile (\<lambda>x. x \<noteq> c) ((x # pre) @ p @ z) = takeWhile (\<lambda>x. x \<noteq> c) p" by simp
    moreover have "takeWhile (\<lambda>x. x \<noteq> c) ((x # pre) @ p @ z)
        = (x # pre) @ takeWhile (\<lambda>x. x \<noteq> c) (p @ z)"
      using Cons.prems(2) by (intro takeWhile_append2) auto
    moreover have "takeWhile (\<lambda>x. x \<noteq> c) (p @ z) = takeWhile (\<lambda>x. x \<noteq> c) p"
      using Cons.prems(1) by (auto simp: takeWhile_append1)
    ultimately have "(x # pre) @ takeWhile (\<lambda>x. x \<noteq> c) p = takeWhile (\<lambda>x. x \<noteq> c) p" by simp
    then have "length ((x # pre) @ takeWhile (\<lambda>x. x \<noteq> c) p) = length (takeWhile (\<lambda>x. x \<noteq> c) p)"
      by simp
    then show False by simp
  qed
  with Cons show ?case by simp
qed

lemma split_ConsD:
  assumes "split sep s = x # y # ys"
  shows "\<exists>i. find_sub sep s = Some i \<and> sep \<noteq> [] \<and> x = take i s \<and>
             split sep (drop (i + length sep) s) = y # ys \<and>
             s = x @ sep @ drop (i + length sep) s"
proof (cases "find_sub sep s")
  case None
  with assms show ?thesis by (simp add: split_None)
next
  case (Some i)
  have ne: "sep \<noteq> []"
  proof
    assume "sep = []"
    with assms Some show False by (subst (asm) split.simps) simp
  qed
  from split_Some [OF Some ne] assms find_sub_decomp [OF Some] Some ne
  show ?thesis by auto
qed

lemma split_hd_prefix: "\<exists>z. s = hd (split sep s) @ z \<and> (length (split sep s) = 1 \<longrightarrow> z = [])"
proof (cases "find_sub sep s")
  case None
  then show ?thesis by (simp add: split_None)
next
  case (Some i)
  show ?thesis
  proof (cases "sep = []")
    case True
    with Some show ?thesis by (subst split.simps, subst split.simps) simp
  next
    case False
    from split_Some [OF Some False] split_not_Nil [of sep "drop (i + length sep) s"]
    have "hd (split sep s) = take i s" "length (split sep s) \<noteq> 1" by auto
    moreover have "s = take i s @ drop i s" by simp
    ultimately show ?thesis by metis
  qed
qed

lemma replace_at:
  "find_sub old s = Some i \<Longrightarrow> old \<noteq> [] \<Longrightarrow>
     replace old new s = take i s @ new @ replace old new (drop (i + length old) s)"
  by (subst replace.simps) simp

lemma replace_Nil: "old \<noteq> [] \<Longrightarrow> replace old new [] = []"
  by (subst replace.simps) simp

section \<open>The molecular structure adapter\<close>

text \<open>
  The cleaning functions call RDKit, an external library. Its operations are taken as
  a parameter: a record of functions over an abstract type of molecules.
  \<^item> \<open>MolFromSmiles\<close> is \<^verbatim>\<open>Chem.MolFromSmiles\<close>; \<open>None\<close> is Python's \<^verbatim>\<open>None\<close>
    (the string does not parse).
  \<^item> \<open>MolToSmiles\<close> is \<^verbatim>\<open>Chem.MolToSmiles\<close>.
  \<^item> \<open>NumAtoms m\<close> is the number of atoms \<^verbatim>\<open>mol.GetAtoms()\<close> iterates over;
    \<open>AtomMapProp m i\<close> is \<^verbatim>\<open>GetProp('molAtomMapNumber')\<close> of atom \<open>i\<close>, and \<open>None\<close>
    when \<^verbatim>\<open>HasProp('molAtomMapNumber')\<close> is false; \<open>ClearAtomMap m i\<close> is the molecule
    after \<^verbatim>\<open>ClearProp('molAtomMapNumber')\<close> on atom \<open>i\<close>.
  \<^item> \<open>CalcNumHeavyAtoms\<close> is \<^verbatim>\<open>rdMolDescriptors.CalcNumHeavyAtoms\<close>.
  \<^item> \<open>HasCarbon m\<close> is \<^verbatim>\<open>mol.HasSubstructMatch(Chem.MolFromSmarts("[#6]"))\<close>.
  \<^item> \<open>RemoveStereochemistry\<close> is \<^verbatim>\<open>Chem.RemoveStereochemistry\<close>, which updates the
    molecule in place; the model returns the updated molecule.
\<close>

record 'mol chem =
  MolFromSmiles :: "string \<Rightarrow> 'mol option"
  MolToSmiles :: "'mol \<Rightarrow> string"
  NumAtoms :: "'mol \<Rightarrow> nat"
  AtomMapProp :: "'mol \<Rightarrow> nat \<Rightarrow> string option"
  ClearAtomMap :: "'mol \<Rightarrow> nat \<Rightarrow> 'mol"
  CalcNumHeavyAtoms :: "'mol \<Rightarrow> int"
  HasCarbon :: "'mol \<Rightarrow> bool"
  RemoveStereochemistry :: "'mol \<Rightarrow> 'mol"

section \<open>The cleaning functions of 2_cleaning.py\<close>

text \<open>
  Every function returns \<open>Inr\<close> of the string the Python function returns, or \<open>Inl\<close> of
  the exception it raises to its caller.
\<close>

text \<open>
  \<^verbatim>\<open>untangle_tildes\<close>. For a compound that holds \<^verbatim>\<open>~\<close> the source runs a
  \<^verbatim>\<open>try\<close> block of RDKit calls and regular-expression clean-up (lines 45 to 52) and
  falls back to replacing \<^verbatim>\<open>~\<close> by a dot when the block raises. The block is taken
  as the parameter \<open>fragment\<close>, \<open>None\<close> when it raises.
\<close>

definition untangle_tildes :: "(string \<Rightarrow> string option) \<Rightarrow> string \<Rightarrow> py_error + string" where
  "untangle_tildes fragment rxn_map =
     (let rxn = split ''>'' rxn_map;
          new_rxn =
            map (\<lambda>side. join ''.''
                   (map (\<lambda>mol. if contains ''~'' mol
                               then (case fragment mol of
                                       Some smiles \<Rightarrow> smiles
                                     | None \<Rightarrow> replace ''~'' ''.'' mol)
                               else mol)
                        (split ''.'' side)))
                rxn
      in case item new_rxn 0 of Inl e \<Rightarrow> Inl e | Inr n0 \<Rightarrow>
         case item new_rxn 1 of Inl e \<Rightarrow> Inl e | Inr n1 \<Rightarrow>
         case item new_rxn 2 of Inl e \<Rightarrow> Inl e | Inr n2 \<Rightarrow>
           Inr (n0 @ ''>'' @ n1 @ ''>'' @ n2))"

definition join_reactants_reagents :: "string \<Rightarrow> py_error + string" where
  "join_reactants_reagents rxn_map =
     (if contains ''>>'' rxn_map then Inr rxn_map
      else
        let rxn = split ''>'' rxn_map in
        case item rxn 0 of Inl e \<Rightarrow> Inl e | Inr r0 \<Rightarrow>
        case item rxn 1 of Inl e \<Rightarrow> Inl e | Inr r1 \<Rightarrow>
        case item rxn 2 of Inl e \<Rightarrow> Inl e | Inr r2 \<Rightarrow>
          Inr (r0 @ ''.'' @ r1 @ ''>>'' @ r2))"

definition remove_fragment_info :: "string \<Rightarrow> py_error + string" where
  "remove_fragment_info rxn_map = item (split '' '' rxn_map) 0"

text \<open>
  \<^verbatim>\<open>re.findall('\:([0-9]+)\]', product)\<close>: the digit groups of the leftmost,
  non-overlapping matches of a colon, one or more ASCII digits, and a closing bracket.
  The scanner's state is \<open>None\<close> outside a match and \<open>Some ds\<close> after a colon, with the
  digits read so far (reversed). A character that breaks a match restarts the search; it
  starts a new match itself when it is a colon.
\<close>

definition is_digit :: "char \<Rightarrow> bool" where
  "is_digit c = (c \<in> set ''0123456789'')"

fun scan_maps :: "string option \<Rightarrow> string \<Rightarrow> string list" where
  "scan_maps st [] = []"
| "scan_maps None (c # cs) =
     (if c = CHR '':'' then scan_maps (Some []) cs else scan_maps None cs)"
| "scan_maps (Some ds) (c # cs) =
     (if is_digit c then scan_maps (Some (c # ds)) cs
      else if c = CHR '']'' \<and> ds \<noteq> [] then rev ds # scan_maps None cs
      else if c = CHR '':'' then scan_maps (Some []) cs
      else scan_maps None cs)"

definition findall_maps :: "string \<Rightarrow> string list" where
  "findall_maps product = scan_maps None product"

text \<open>
  The loop over \<^verbatim>\<open>mol.GetAtoms()\<close> of \<^verbatim>\<open>remove_reagents\<close>, over the atom indices:
  an atom whose map number is among the product's sets \<open>used\<close>, any other mapped atom
  loses its map number.
\<close>

fun atoms_loop ::
  "'mol chem \<Rightarrow> string set \<Rightarrow> nat list \<Rightarrow> 'mol \<Rightarrow> bool \<Rightarrow> 'mol \<times> bool" where
  "atoms_loop ch product_maps [] mol used = (mol, used)"
| "atoms_loop ch product_maps (a # as) mol used =
     (case AtomMapProp ch mol a of
        None \<Rightarrow> atoms_loop ch product_maps as mol used
      | Some n \<Rightarrow>
          if n \<in> product_maps then atoms_loop ch product_maps as mol True
          else atoms_loop ch product_maps as (ClearAtomMap ch mol a) used)"

text \<open>
  One pass of the loop over \<^verbatim>\<open>reactants\<close>: \<open>None\<close> when the compound is skipped
  (it does not parse, or none of its atoms is used), otherwise the string appended to
  \<^verbatim>\<open>new_reactants\<close>.
\<close>

definition keep_reactant :: "'mol chem \<Rightarrow> string set \<Rightarrow> string \<Rightarrow> string option" where
  "keep_reactant ch product_maps smiles =
     (case MolFromSmiles ch smiles of
        None \<Rightarrow> None
      | Some mol \<Rightarrow>
          (case atoms_loop ch product_maps [0..<NumAtoms ch mol] mol False of
             (mol', used) \<Rightarrow> if used then Some (MolToSmiles ch mol') else None))"

definition remove_reagents :: "'mol chem \<Rightarrow> string \<Rightarrow> py_error + string" where
  "remove_reagents ch rxn_map =
     (case item (split ''>>'' rxn_map) 0 of Inl e \<Rightarrow> Inl e | Inr r \<Rightarrow>
      case item (split ''>>'' rxn_map) 1 of Inl e \<Rightarrow> Inl e | Inr product \<Rightarrow>
        let reactants = split ''.'' r;
            product_maps = set (findall_maps product);
            new_reactants = List.map_filter (keep_reactant ch product_maps) reactants
        in Inr (join ''.'' new_reactants @ ''>>'' @ product))"

definition reactant_count_filter :: "string \<Rightarrow> py_error + string" where
  "reactant_count_filter rxn_map =
     (case item (split ''>>'' rxn_map) 0 of Inl e \<Rightarrow> Inl e | Inr r \<Rightarrow>
        let reactants = split ''.'' r;
            count = length reactants
        in if count < 5 \<and> count \<ge> 1 then Inr rxn_map
           else Inr ''Error: too many reactants'')"

text \<open>
  \<^verbatim>\<open>[CalcNumHeavyAtoms(mol) for mol in prod_mols]\<close> inside \<^verbatim>\<open>try\<close>: \<open>None\<close> when
  the call raises, which it does on Python's \<^verbatim>\<open>None\<close>.
\<close>

fun heavy_atoms :: "'mol chem \<Rightarrow> 'mol option list \<Rightarrow> int list option" where
  "heavy_atoms ch [] = Some []"
| "heavy_atoms ch (None # ms) = None"
| "heavy_atoms ch (Some m # ms) =
     map_option ((#) (CalcNumHeavyAtoms ch m)) (heavy_atoms ch ms)"

definition multiproduct_fixer :: "'mol chem \<Rightarrow> string \<Rightarrow> py_error + string" where
  "multiproduct_fixer ch rxn_map =
     (case item (split ''>>'' rxn_map) 1 of Inl e \<Rightarrow> Inl e | Inr ps \<Rightarrow>
        let products = split ''.'' ps in
        if length products > 1 then
          let prod_mols = map (MolFromSmiles ch) products in
          case heavy_atoms ch prod_mols of
            None \<Rightarrow> Inr ''Error: invalid product''
          | Some prod_atoms \<Rightarrow>
              let prod_bools = map (\<lambda>atoms. atoms > 5) prod_atoms;
                  new_prods = map fst (filter snd (zip products prod_bools))
              in if length new_prods = 1 then
                   (case item (split ''>>'' rxn_map) 0 of Inl e \<Rightarrow> Inl e | Inr r \<Rightarrow>
                    case item new_prods 0 of Inl e \<Rightarrow> Inl e | Inr p \<Rightarrow>
                      Inr (r @ ''>>'' @ p))
                 else Inr ''Error: too many products''
        else
          case item products 0 of Inl e \<Rightarrow> Inl e | Inr p \<Rightarrow>
            if MolFromSmiles ch p \<noteq> None then Inr rxn_map
            else Inr ''Error: product smiles error'')"

definition no_carbon :: "'mol chem \<Rightarrow> string \<Rightarrow> py_error + string" where
  "no_carbon ch rxn_map =
     (case item (split ''>>'' rxn_map) 1 of Inl e \<Rightarrow> Inl e | Inr p \<Rightarrow>
      case MolFromSmiles ch p of
        None \<Rightarrow> Inl AttributeError
      | Some mol \<Rightarrow>
          if HasCarbon ch mol then Inr rxn_map
          else Inr ''Error: no organic product'')"

definition remove_stereoalchemy :: "'mol chem \<Rightarrow> string \<Rightarrow> py_error + string" where
  "remove_stereoalchemy ch rxn =
     (case item (split ''>>'' rxn) 0 of Inl e \<Rightarrow> Inl e | Inr r \<Rightarrow>
      case item (split ''>>'' rxn) 1 of Inl e \<Rightarrow> Inl e | Inr p \<Rightarrow>
        if contains ''@'' p \<and> \<not> contains ''@'' r then
          (case MolFromSmiles ch p of
             None \<Rightarrow> Inl ArgumentError
           | Some p_mol \<Rightarrow>
               let new_p = MolToSmiles ch (RemoveStereochemistry ch p_mol)
               in Inr (replace p new_p rxn))
        else Inr rxn)"

definition product_in_reactants :: "string \<Rightarrow> py_error + string" where
  "product_in_reactants rxn_map =
     (case item (split ''>>'' rxn_map) 1 of Inl e \<Rightarrow> Inl e | Inr product \<Rightarrow>
      case item (split ''>>'' rxn_map) 0 of Inl e \<Rightarrow> Inl e | Inr r \<Rightarrow>
        if product \<in> set (split ''.'' r) then Inr ''Error: product in reactants''
        else Inr rxn_map)"

section \<open>A sample structure adapter\<close>

text \<open>
  The theorems below hold for every adapter. To instantiate them at concrete reaction
  strings they need one adapter that computes; this is a small one, not RDKit. A
  molecule is its list of atoms, each an element text with an optional map number. A
  bracket \<^verbatim>\<open>[CH3:1]\<close> is one atom, and so is every character outside brackets. An atom
  is heavy unless its text starts with \<^verbatim>\<open>H\<close>, and is a carbon when its text starts
  with \<^verbatim>\<open>C\<close> or \<^verbatim>\<open>c\<close> and is not chlorine. Removing stereochemistry deletes
  the \<^verbatim>\<open>@\<close> marks.
\<close>

type_synonym sample_atom = "string \<times> string option"
type_synonym sample_mol = "sample_atom list"

text \<open>The content of a bracket: an element text, then optionally a colon and a map number.\<close>

definition bracket_atom :: "string \<Rightarrow> sample_atom option" where
  "bracket_atom body =
     (case split '':'' body of
        [b] \<Rightarrow> Some (b, None)
      | [b, n] \<Rightarrow> Some (b, Some n)
      | _ \<Rightarrow> None)"

text \<open>
  The scanner's state is \<open>None\<close> outside brackets and \<open>Some acc\<close> inside, with the
  bracket's content so far (reversed). An unmatched bracket does not parse.
\<close>

fun scan_atoms :: "string option \<Rightarrow> string \<Rightarrow> sample_mol option" where
  "scan_atoms None [] = Some []"
| "scan_atoms (Some acc) [] = None"
| "scan_atoms None (c # cs) =
     (if c = CHR ''['' then scan_atoms (Some []) cs
      else if c = CHR '']'' then None
      else map_option ((#) ([c], None)) (scan_atoms None cs))"
| "scan_atoms (Some acc) (c # cs) =
     (if c = CHR '']'' then
        (case bracket_atom (rev acc) of
           None \<Rightarrow> None
         | Some a \<Rightarrow> map_option ((#) a) (scan_atoms None cs))
      else scan_atoms (Some (c # acc)) cs)"

fun atom_text :: "sample_atom \<Rightarrow> string" where
  "atom_text (b, None) = (if length b = 1 then b else ''['' @ b @ '']'')"
| "atom_text (b, Some n) = ''['' @ b @ '':'' @ n @ '']''"

definition is_heavy :: "sample_atom \<Rightarrow> bool" where
  "is_heavy a = (take 1 (fst a) \<noteq> ''H'')"

definition is_carbon :: "sample_atom \<Rightarrow> bool" where
  "is_carbon a = (take 1 (fst a) \<in> {''C'', ''c''} \<and> take 2 (fst a) \<noteq> ''Cl'')"

definition sample_chem :: "sample_mol chem" where
  "sample_chem =
     \<lparr> MolFromSmiles = scan_atoms None,
       MolToSmiles = (\<lambda>m. concat (map atom_text m)),
       NumAtoms = length,
       AtomMapProp = (\<lambda>m i. if i < length m then snd (m ! i) else None),
       ClearAtomMap = (\<lambda>m i. if i < length m then m[i := (fst (m ! i), None)] else m),
       CalcNumHeavyAtoms = (\<lambda>m. int (length (filter is_heavy m))),
       HasCarbon = (\<lambda>m. \<exists>a \<in> set m. is_carbon a),
       RemoveStereochemistry = map (\<lambda>a. (filter (\<lambda>c. c \<noteq> CHR ''@'') (fst a), snd a)) \<rparr>"

section \<open>Properties of the cleaning functions\<close>

lemma contains_char: "contains [c] s \<longleftrightarrow> c \<in> set s"
  by (simp add: contains_def find_sub_char_None_iff)

lemma item_split_0: "item (split sep s) 0 = Inr (hd (split sep s))"
  using split_not_Nil [of sep s] by (cases "split sep s") (simp_all add: item_def)

text \<open>
  Claim C9. \<^verbatim>\<open>join_reactants_reagents\<close> returns its input unchanged when the input
  contains \<^verbatim>\<open>>>\<close>. On an input without \<^verbatim>\<open>>>\<close> that has exactly three
  \<^verbatim>\<open>>\<close>-separated segments (reactants, reagents, products) it returns the reactant
  and reagent segments joined by a dot, then \<^verbatim>\<open>>>\<close>, then the product segment; this
  output has exactly one separator pair: splitting it at \<^verbatim>\<open>>>\<close> gives exactly the two
  segments, and it holds exactly two \<^verbatim>\<open>>\<close> characters.
\<close>

theorem join_reactants_reagents_merged:
  "(contains ''>>'' rxn_map \<longrightarrow> join_reactants_reagents rxn_map = Inr rxn_map) \<and>
   (\<not> contains ''>>'' rxn_map \<longrightarrow> split ''>'' rxn_map = [r0, r1, r2] \<longrightarrow>
      join_reactants_reagents rxn_map = Inr (r0 @ ''.'' @ r1 @ ''>>'' @ r2) \<and>
      split ''>>'' (r0 @ ''.'' @ r1 @ ''>>'' @ r2) = [r0 @ ''.'' @ r1, r2] \<and>
      length (filter (\<lambda>c. c = CHR ''>'') (r0 @ ''.'' @ r1 @ ''>>'' @ r2)) = 2)"
proof (intro conjI impI)
  assume "contains ''>>'' rxn_map"
  then show "join_reactants_reagents rxn_map = Inr rxn_map"
    by (simp add: join_reactants_reagents_def)
next
  assume nc: "\<not> contains ''>>'' rxn_map" and sp: "split ''>'' rxn_map = [r0, r1, r2]"
  from nc sp show "join_reactants_reagents rxn_map = Inr (r0 @ ''.'' @ r1 @ ''>>'' @ r2)"
    by (simp add: join_reactants_reagents_def item_def)
  have free: "CHR ''>'' \<notin> set r0" "CHR ''>'' \<notin> set r1" "CHR ''>'' \<notin> set r2"
    using split_char_free [of _ "CHR ''>''" rxn_map] sp by simp_all
  then have "CHR ''>'' \<notin> set (r0 @ ''.'' @ r1)" by simp
  from split_two [OF this free(3), of "''>''"]
  show "split ''>>'' (r0 @ ''.'' @ r1 @ ''>>'' @ r2) = [r0 @ ''.'' @ r1, r2]" by simp
  from free show "length (filter (\<lambda>c. c = CHR ''>'') (r0 @ ''.'' @ r1 @ ''>>'' @ r2)) = 2"
    by (auto simp: filter_empty_conv)
qed

theorem join_reactants_reagents_merged_witness:
  "join_reactants_reagents ''C.O>>CO'' = Inr ''C.O>>CO'' \<and>
   join_reactants_reagents ''C>O>CO'' = Inr ''C.O>>CO'' \<and>
   split ''>>'' ''C.O>>CO'' = [''C.O'', ''CO''] \<and>
   length (filter (\<lambda>c. c = CHR ''>'') ''C.O>>CO'') = 2"
  using join_reactants_reagents_merged [of "''C.O>>CO''"]
    join_reactants_reagents_merged [of "''C>O>CO''" "''C''" "''O''" "''CO''"]
  by (simp add: contains_def split.simps)

text \<open>
  Claim C7. The reactant segment of \<^verbatim>\<open>>>CC\<close> is empty: the reaction has no reactant
  compound. \<^verbatim>\<open>reactant_count_filter\<close> returns it unchanged, because splitting the
  empty segment at the dot gives one (empty) piece and the count is 1. The test
  \<^verbatim>\<open>count >= 1\<close> of the source can never fail.
\<close>

theorem reactant_count_filter_no_reactants:
  "hd (split ''>>'' ''>>CC'') = [] \<and>
   length (split ''.'' (hd (split ''>>'' ''>>CC''))) = 1 \<and>
   reactant_count_filter ''>>CC'' = Inr ''>>CC''"
  by (simp add: reactant_count_filter_def split.simps item_def)

text \<open>
  What the filter computes on every string: the sentinel exactly when the reactant
  segment has five or more dot-separated pieces; the number of pieces is never 0.
\<close>

lemma reactant_count_filter_pieces:
  "reactant_count_filter rxn_map =
     Inr (if length (split ''.'' (hd (split ''>>'' rxn_map))) < 5 then rxn_map
          else ''Error: too many reactants'') \<and>
   1 \<le> length (split ''.'' (hd (split ''>>'' rxn_map)))"
  using split_not_Nil [of "''.''" "hd (split ''>>'' rxn_map)"]
  by (cases "split ''.'' (hd (split ''>>'' rxn_map))")
     (simp_all add: reactant_count_filter_def item_split_0 Let_def)

text \<open>
  The product compounds the specification keeps: those that parse and have more than
  five heavy atoms. The source computes them through a list of booleans and
  \<^verbatim>\<open>enumerate\<close>; this definition follows the specification's words.
\<close>

definition heavy_products :: "'mol chem \<Rightarrow> string list \<Rightarrow> string list" where
  "heavy_products ch products =
     filter (\<lambda>p. case MolFromSmiles ch p of None \<Rightarrow> False
                 | Some m \<Rightarrow> CalcNumHeavyAtoms ch m > 5) products"

lemma heavy_atoms_unparsed:
  "\<exists>p\<in>set ps. MolFromSmiles ch p = None \<Longrightarrow> heavy_atoms ch (map (MolFromSmiles ch) ps) = None"
proof (induction ps)
  case Nil
  then show ?case by simp
next
  case (Cons p ps)
  then show ?case by (cases "MolFromSmiles ch p") auto
qed

lemma heavy_atoms_parsed:
  "\<forall>p\<in>set ps. MolFromSmiles ch p \<noteq> None \<Longrightarrow>
     \<exists>as. heavy_atoms ch (map (MolFromSmiles ch) ps) = Some as \<and>
          map fst (filter snd (zip ps (map (\<lambda>atoms. atoms > 5) as))) = heavy_products ch ps"
proof (induction ps)
  case Nil
  then show ?case by (simp add: heavy_products_def)
next
  case (Cons p ps)
  then obtain m where m: "MolFromSmiles ch p = Some m" by auto
  from Cons obtain as where as: "heavy_atoms ch (map (MolFromSmiles ch) ps) = Some as"
    "map fst (filter snd (zip ps (map (\<lambda>atoms. atoms > 5) as))) = heavy_products ch ps"
    by auto
  with m show ?case by (simp add: heavy_products_def)
qed

lemma multiproduct_fixer_unparsed:
  assumes "split ''>>'' rxn_map = r # ps # rest" "1 < length (split ''.'' ps)"
    and "\<exists>p\<in>set (split ''.'' ps). MolFromSmiles ch p = None"
  shows "multiproduct_fixer ch rxn_map = Inr ''Error: invalid product''"
  using assms(1,2) heavy_atoms_unparsed [OF assms(3)]
  by (simp add: multiproduct_fixer_def item_def)

lemma multiproduct_fixer_parsed:
  assumes "split ''>>'' rxn_map = r # ps # rest" "1 < length (split ''.'' ps)"
    and "\<forall>p\<in>set (split ''.'' ps). MolFromSmiles ch p \<noteq> None"
  shows "multiproduct_fixer ch rxn_map =
     (case heavy_products ch (split ''.'' ps) of
        [q] \<Rightarrow> Inr (r @ ''>>'' @ q)
      | _ \<Rightarrow> Inr ''Error: too many products'')"
proof -
  from heavy_atoms_parsed [OF assms(3)] obtain as where
    as: "heavy_atoms ch (map (MolFromSmiles ch) (split ''.'' ps)) = Some as"
    "map fst (filter snd (zip (split ''.'' ps) (map (\<lambda>atoms. atoms > 5) as)))
       = heavy_products ch (split ''.'' ps)"
    by blast
  have len: "length (filter snd (zip (split ''.'' ps) (map (\<lambda>atoms. atoms > 5) as)))
      = length (heavy_products ch (split ''.'' ps))"
    using arg_cong [OF as(2), of length] by simp
  show ?thesis
  proof (cases "heavy_products ch (split ''.'' ps)")
    case Nil
    with assms(1,2) as len show ?thesis
      by (simp add: multiproduct_fixer_def item_def Let_def)
  next
    case (Cons q qs)
    with assms(1,2) as len show ?thesis
      by (cases qs) (simp_all add: multiproduct_fixer_def item_def Let_def)
  qed
qed

text \<open>
  Claim C8. Let the product segment of a reaction hold more than one compound. When
  every product compound parses, \<^verbatim>\<open>multiproduct_fixer\<close> keeps the compounds with more
  than five heavy atoms: if exactly one is kept it returns the reactant segment,
  \<^verbatim>\<open>>>\<close>, and that compound; if none or several are kept it returns the sentinel
  \<^verbatim>\<open>Error: too many products\<close>. When a product compound does not parse it returns
  the sentinel \<^verbatim>\<open>Error: invalid product\<close>. In particular, for the product segment
  \<^verbatim>\<open>CC.CCCCCC\<close>, where \<^verbatim>\<open>CC\<close> has at most five heavy atoms and \<^verbatim>\<open>CCCCCC\<close>
  more than five, it returns the reactant segment joined with \<^verbatim>\<open>CCCCCC\<close>.
\<close>

theorem multiproduct_fixer_sole_survivor:
  assumes "split ''>>'' rxn_map = r # ps # rest" and "1 < length (split ''.'' ps)"
  shows
   "((\<exists>p\<in>set (split ''.'' ps). MolFromSmiles ch p = None) \<longrightarrow>
       multiproduct_fixer ch rxn_map = Inr ''Error: invalid product'') \<and>
    ((\<forall>p\<in>set (split ''.'' ps). MolFromSmiles ch p \<noteq> None) \<longrightarrow>
       (\<forall>q. heavy_products ch (split ''.'' ps) = [q] \<longrightarrow>
            multiproduct_fixer ch rxn_map = Inr (r @ ''>>'' @ q)) \<and>
       (length (heavy_products ch (split ''.'' ps)) \<noteq> 1 \<longrightarrow>
            multiproduct_fixer ch rxn_map = Inr ''Error: too many products'')) \<and>
    (ps = ''CC.CCCCCC'' \<longrightarrow>
       MolFromSmiles ch ''CC'' = Some m1 \<longrightarrow> CalcNumHeavyAtoms ch m1 \<le> 5 \<longrightarrow>
       MolFromSmiles ch ''CCCCCC'' = Some m2 \<longrightarrow> 5 < CalcNumHeavyAtoms ch m2 \<longrightarrow>
       multiproduct_fixer ch rxn_map = Inr (r @ ''>>CCCCCC''))"
proof (intro conjI impI allI)
  assume "\<exists>p\<in>set (split ''.'' ps). MolFromSmiles ch p = None"
  then show "multiproduct_fixer ch rxn_map = Inr ''Error: invalid product''"
    by (rule multiproduct_fixer_unparsed [OF assms])
next
  fix q
  assume "\<forall>p\<in>set (split ''.'' ps). MolFromSmiles ch p \<noteq> None"
    and "heavy_products ch (split ''.'' ps) = [q]"
  with multiproduct_fixer_parsed [OF assms, of ch]
  show "multiproduct_fixer ch rxn_map = Inr (r @ ''>>'' @ q)" by simp
next
  assume "\<forall>p\<in>set (split ''.'' ps). MolFromSmiles ch p \<noteq> None"
    and "length (heavy_products ch (split ''.'' ps)) \<noteq> 1"
  with multiproduct_fixer_parsed [OF assms, of ch]
  show "multiproduct_fixer ch rxn_map = Inr ''Error: too many products''"
    by (simp split: list.splits)
next
  assume ps: "ps = ''CC.CCCCCC''"
    and m: "MolFromSmiles ch ''CC'' = Some m1" "CalcNumHeavyAtoms ch m1 \<le> 5"
      "MolFromSmiles ch ''CCCCCC'' = Some m2" "5 < CalcNumHeavyAtoms ch m2"
  have sp: "split ''.'' ps = [''CC'', ''CCCCCC'']"
    unfolding ps by (simp add: split.simps)
  with m have "\<forall>p\<in>set (split ''.'' ps). MolFromSmiles ch p \<noteq> None" by simp
  from multiproduct_fixer_parsed [OF assms this] sp m
  show "multiproduct_fixer ch rxn_map = Inr (r @ ''>>CCCCCC'')"
    by (simp add: heavy_products_def)
qed

theorem multiproduct_fixer_sole_survivor_witness:
  "split ''>>'' ''CCCCCCO.CO>>CC.CCCCCC'' = [''CCCCCCO.CO'', ''CC.CCCCCC''] \<and>
   1 < length (split ''.'' ''CC.CCCCCC'') \<and>
   heavy_products sample_chem (split ''.'' ''CC.CCCCCC'') = [''CCCCCC''] \<and>
   multiproduct_fixer sample_chem ''CCCCCCO.CO>>CC.CCCCCC'' = Inr ''CCCCCCO.CO>>CCCCCC''"
proof -
  have s1: "split ''>>'' ''CCCCCCO.CO>>CC.CCCCCC'' = [''CCCCCCO.CO'', ''CC.CCCCCC'']"
    by (simp add: split.simps)
  have s2: "1 < length (split ''.'' ''CC.CCCCCC'')"
    by (simp add: split.simps)
  have hp: "heavy_products sample_chem (split ''.'' ''CC.CCCCCC'') = [''CCCCCC'']"
    by (simp add: split.simps heavy_products_def sample_chem_def is_heavy_def)
  have pa: "\<forall>p\<in>set (split ''.'' ''CC.CCCCCC''). MolFromSmiles sample_chem p \<noteq> None"
    by (simp add: split.simps sample_chem_def)
  from multiproduct_fixer_sole_survivor [OF s1 s2, of sample_chem] pa hp
  have "multiproduct_fixer sample_chem ''CCCCCCO.CO>>CC.CCCCCC'' = Inr ''CCCCCCO.CO>>CCCCCC''"
    by simp
  with s1 s2 hp show ?thesis by simp
qed

lemma remove_stereoalchemy_shape:
  assumes sp: "split ''>>'' rxn = r # p # rest"
    and at: "contains ''@'' p" and nat: "\<not> contains ''@'' r"
  shows "\<exists>z. replace p new_p rxn = r @ ''>>'' @ new_p @ replace p new_p z \<and>
             (rest = [] \<longrightarrow> z = []) \<and>
             hd (split ''>>'' (replace p new_p rxn)) = r"
proof -
  from split_ConsD [OF sp] obtain i where
    i: "find_sub ''>>'' rxn = Some i" "r = take i rxn"
       "split ''>>'' (drop (i + length ''>>'') rxn) = p # rest"
       "rxn = r @ ''>>'' @ drop (i + length ''>>'') rxn"
    by blast
  let ?t = "drop (i + length ''>>'') rxn"
  from split_hd_prefix [of ?t "''>>''"] i(3) obtain z where
    z: "?t = p @ z" "rest = [] \<longrightarrow> z = []" by auto
  from at have pin: "CHR ''@'' \<in> set p" by (simp add: contains_char)
  then have pne: "p \<noteq> []" by auto
  from nat have "CHR ''@'' \<notin> set (r @ ''>>'')" by (simp add: contains_char)
  from find_sub_first_marker [OF pin this, of z]
  have f: "find_sub p ((r @ ''>>'') @ p @ z) = Some (length (r @ ''>>''))" .
  have rx: "rxn = (r @ ''>>'') @ p @ z" using i(4) z(1) by simp
  have "replace p new_p ((r @ ''>>'') @ p @ z)
      = take (length (r @ ''>>'')) ((r @ ''>>'') @ p @ z) @ new_p
        @ replace p new_p (drop (length (r @ ''>>'') + length p) ((r @ ''>>'') @ p @ z))"
    by (rule replace_at [OF f pne])
  also have "\<dots> = r @ ''>>'' @ new_p @ replace p new_p z" by simp
  finally have out: "replace p new_p rxn = r @ ''>>'' @ new_p @ replace p new_p z"
    using rx by simp
  from split_hd_stable [OF i(1), of "new_p @ replace p new_p z"] i(2)
  have "hd (split ''>>'' (r @ ''>>'' @ new_p @ replace p new_p z)) = r" by simp
  with out z(2) show ?thesis by auto
qed

text \<open>
  Claim C5. Let a reaction string split at \<^verbatim>\<open>>>\<close> into a reactant segment without
  \<^verbatim>\<open>@\<close>, a product segment with \<^verbatim>\<open>@\<close>, and possibly more segments, and let the
  product segment parse. Then \<^verbatim>\<open>remove_stereoalchemy\<close> returns a string whose
  reactant segment is the reactant segment of the input, character for character. For
  a string of exactly two segments the output is the reactant segment, \<^verbatim>\<open>>>\<close>, and
  the product re-serialised without stereochemistry.
\<close>

theorem remove_stereoalchemy_reactants_unchanged:
  assumes "split ''>>'' rxn = r # p # rest"
    and "contains ''@'' p" and "\<not> contains ''@'' r"
    and "MolFromSmiles ch p = Some m"
  shows "\<exists>out. remove_stereoalchemy ch rxn = Inr out \<and>
           hd (split ''>>'' out) = r \<and>
           (rest = [] \<longrightarrow> out = r @ ''>>'' @ MolToSmiles ch (RemoveStereochemistry ch m))"
proof -
  let ?new = "MolToSmiles ch (RemoveStereochemistry ch m)"
  from assms have res: "remove_stereoalchemy ch rxn = Inr (replace p ?new rxn)"
    by (simp add: remove_stereoalchemy_def item_def)
  from assms(2) have "p \<noteq> []" by (auto simp: contains_char)
  with remove_stereoalchemy_shape [OF assms(1-3), of ?new] res
  show ?thesis by (auto simp: replace_Nil)
qed

theorem remove_stereoalchemy_reactants_unchanged_witness:
  "split ''>>'' ''CCO>>C[C@H](N)O'' = [''CCO'', ''C[C@H](N)O''] \<and>
   contains ''@'' ''C[C@H](N)O'' \<and> \<not> contains ''@'' ''CCO'' \<and>
   MolFromSmiles sample_chem ''C[C@H](N)O'' \<noteq> None \<and>
   remove_stereoalchemy sample_chem ''CCO>>C[C@H](N)O'' = Inr ''CCO>>C[CH](N)O'' \<and>
   hd (split ''>>'' ''CCO>>C[CH](N)O'') = ''CCO''"
proof -
  have s: "split ''>>'' ''CCO>>C[C@H](N)O'' = [''CCO'', ''C[C@H](N)O'']"
    by (simp add: split.simps)
  have a: "contains ''@'' ''C[C@H](N)O''" and b: "\<not> contains ''@'' ''CCO''"
    by (simp_all add: contains_def)
  have m: "MolFromSmiles sample_chem ''C[C@H](N)O''
      = Some [(''C'', None), (''C@H'', None), (''('', None), (''N'', None), ('')'', None), (''O'', None)]"
    by (simp add: sample_chem_def bracket_atom_def split.simps)
  from remove_stereoalchemy_reactants_unchanged [OF s a b m] s a b m
  show ?thesis by (auto simp: sample_chem_def)
qed

lemma multiproduct_fixer_returns:
  assumes "split ''>>'' rxn = r # p # rest"
  shows "\<exists>out. multiproduct_fixer ch rxn = Inr out"
proof (cases "1 < length (split ''.'' p)")
  case True
  show ?thesis
  proof (cases "heavy_atoms ch (map (MolFromSmiles ch) (split ''.'' p))")
    case None
    with assms True show ?thesis by (simp add: multiproduct_fixer_def item_def)
  next
    case (Some as)
    with assms True show ?thesis
      by (cases "filter snd (zip (split ''.'' p) (map (\<lambda>atoms. atoms > 5) as))")
         (simp_all add: multiproduct_fixer_def item_def Let_def)
  qed
next
  case False
  with assms split_not_Nil [of "''.''" p] show ?thesis
    by (cases "split ''.'' p") (simp_all add: multiproduct_fixer_def item_def)
qed

lemma merged_form_returns:
  assumes "split ''>>'' rxn = r # p # rest"
  shows "(\<exists>out. reactant_count_filter rxn = Inr out) \<and>
         (\<exists>out. product_in_reactants rxn = Inr out) \<and>
         (\<exists>out. remove_reagents ch rxn = Inr out)"
  using assms
  by (simp add: reactant_count_filter_def product_in_reactants_def remove_reagents_def
      item_def Let_def)

lemma no_separator_raises:
  assumes "\<not> contains ''>>'' rxn"
  shows "no_carbon ch rxn = Inl IndexError \<and> remove_stereoalchemy ch rxn = Inl IndexError \<and>
         multiproduct_fixer ch rxn = Inl IndexError \<and> product_in_reactants rxn = Inl IndexError \<and>
         remove_reagents ch rxn = Inl IndexError"
proof -
  from assms have "item (split ''>>'' rxn) 1 = Inl IndexError"
    using item_split_1_missing [of "''>>''" rxn] by simp
  then show ?thesis
    by (simp add: no_carbon_def remove_stereoalchemy_def multiproduct_fixer_def
        product_in_reactants_def remove_reagents_def item_split_0)
qed

lemma unparsed_product_raises:
  assumes "split ''>>'' rxn = r # p # rest" "MolFromSmiles ch p = None"
  shows "no_carbon ch rxn = Inl AttributeError \<and>
         remove_stereoalchemy ch rxn =
           (if contains ''@'' p \<and> \<not> contains ''@'' r then Inl ArgumentError else Inr rxn)"
  using assms by (simp add: no_carbon_def remove_stereoalchemy_def item_def)

lemma parsed_product_returns:
  assumes "split ''>>'' rxn = r # p # rest" "MolFromSmiles ch p = Some m"
  shows "no_carbon ch rxn = Inr (if HasCarbon ch m then rxn else ''Error: no organic product'') \<and>
         remove_stereoalchemy ch rxn =
           Inr (if contains ''@'' p \<and> \<not> contains ''@'' r
                then replace p (MolToSmiles ch (RemoveStereochemistry ch m)) rxn
                else rxn)"
  using assms by (simp add: no_carbon_def remove_stereoalchemy_def item_def)

text \<open>
  What the functions that read the product segment do on every string. They read it with
  \<^verbatim>\<open>split(">>")[1]\<close> outside any \<^verbatim>\<open>try\<close>, so on a string without \<^verbatim>\<open>>>\<close>
  \<^verbatim>\<open>no_carbon\<close>, \<^verbatim>\<open>remove_stereoalchemy\<close>, \<^verbatim>\<open>multiproduct_fixer\<close>,
  \<^verbatim>\<open>product_in_reactants\<close> and \<^verbatim>\<open>remove_reagents\<close> raise \<^verbatim>\<open>IndexError\<close>. On a
  string with \<^verbatim>\<open>>>\<close>, \<^verbatim>\<open>reactant_count_filter\<close>, \<^verbatim>\<open>multiproduct_fixer\<close>,
  \<^verbatim>\<open>product_in_reactants\<close> and \<^verbatim>\<open>remove_reagents\<close> return a string. If moreover
  the product segment parses, \<^verbatim>\<open>no_carbon\<close> returns the reaction or the sentinel
  \<^verbatim>\<open>Error: no organic product\<close>, and \<^verbatim>\<open>remove_stereoalchemy\<close> returns the
  reaction, unchanged or with the product re-serialised. If the product segment does not
  parse, \<^verbatim>\<open>no_carbon\<close> raises, and \<^verbatim>\<open>remove_stereoalchemy\<close> raises when it has
  stereochemistry to strip and returns the reaction otherwise.
\<close>

theorem cleaning_functions_results:
  "(\<not> contains ''>>'' rxn \<longrightarrow>
      no_carbon ch rxn = Inl IndexError \<and> remove_stereoalchemy ch rxn = Inl IndexError \<and>
      multiproduct_fixer ch rxn = Inl IndexError \<and> product_in_reactants rxn = Inl IndexError \<and>
      remove_reagents ch rxn = Inl IndexError) \<and>
   (split ''>>'' rxn = r # p # rest \<longrightarrow>
      (\<exists>out. reactant_count_filter rxn = Inr out) \<and>
      (\<exists>out. multiproduct_fixer ch rxn = Inr out) \<and>
      (\<exists>out. product_in_reactants rxn = Inr out) \<and>
      (\<exists>out. remove_reagents ch rxn = Inr out) \<and>
      (MolFromSmiles ch p = None \<longrightarrow>
         no_carbon ch rxn = Inl AttributeError \<and>
         remove_stereoalchemy ch rxn =
           (if contains ''@'' p \<and> \<not> contains ''@'' r then Inl ArgumentError else Inr rxn)) \<and>
      (MolFromSmiles ch p = Some m \<longrightarrow>
         no_carbon ch rxn =
           Inr (if HasCarbon ch m then rxn else ''Error: no organic product'') \<and>
         remove_stereoalchemy ch rxn =
           Inr (if contains ''@'' p \<and> \<not> contains ''@'' r
                then replace p (MolToSmiles ch (RemoveStereochemistry ch m)) rxn
                else rxn)))"
proof (intro conjI)
  show "\<not> contains ''>>'' rxn \<longrightarrow>
      no_carbon ch rxn = Inl IndexError \<and> remove_stereoalchemy ch rxn = Inl IndexError \<and>
      multiproduct_fixer ch rxn = Inl IndexError \<and> product_in_reactants rxn = Inl IndexError \<and>
      remove_reagents ch rxn = Inl IndexError"
    using no_separator_raises [of rxn ch] by blast
next
  show "split ''>>'' rxn = r # p # rest \<longrightarrow>
      (\<exists>out. reactant_count_filter rxn = Inr out) \<and>
      (\<exists>out. multiproduct_fixer ch rxn = Inr out) \<and>
      (\<exists>out. product_in_reactants rxn = Inr out) \<and>
      (\<exists>out. remove_reagents ch rxn = Inr out) \<and>
      (MolFromSmiles ch p = None \<longrightarrow>
         no_carbon ch rxn = Inl AttributeError \<and>
         remove_stereoalchemy ch rxn =
           (if contains ''@'' p \<and> \<not> contains ''@'' r then Inl ArgumentError else Inr rxn)) \<and>
      (MolFromSmiles ch p = Some m \<longrightarrow>
         no_carbon ch rxn =
           Inr (if HasCarbon ch m then rxn else ''Error: no organic product'') \<and>
         remove_stereoalchemy ch rxn =
           Inr (if contains ''@'' p \<and> \<not> contains ''@'' r
                then replace p (MolToSmiles ch (RemoveStereochemistry ch m)) rxn
                else rxn))"
  proof
    assume sp: "split ''>>'' rxn = r # p # rest"
    from multiproduct_fixer_returns [OF sp, of ch] merged_form_returns [OF sp, of ch]
      unparsed_product_raises [OF sp, of ch] parsed_product_returns [OF sp, of ch m]
    show "(\<exists>out. reactant_count_filter rxn = Inr out) \<and>
      (\<exists>out. multiproduct_fixer ch rxn = Inr out) \<and>
      (\<exists>out. product_in_reactants rxn = Inr out) \<and>
      (\<exists>out. remove_reagents ch rxn = Inr out) \<and>
      (MolFromSmiles ch p = None \<longrightarrow>
         no_carbon ch rxn = Inl AttributeError \<and>
         remove_stereoalchemy ch rxn =
           (if contains ''@'' p \<and> \<not> contains ''@'' r then Inl ArgumentError else Inr rxn)) \<and>
      (MolFromSmiles ch p = Some m \<longrightarrow>
         no_carbon ch rxn =
           Inr (if HasCarbon ch m then rxn else ''Error: no organic product'') \<and>
         remove_stereoalchemy ch rxn =
           Inr (if contains ''@'' p \<and> \<not> contains ''@'' r
                then replace p (MolToSmiles ch (RemoveStereochemistry ch m)) rxn
                else rxn))"
      by blast
  qed
qed

theorem cleaning_functions_results_witness:
  "no_carbon sample_chem ''CCO>>C[C@H](N)O'' = Inr ''CCO>>C[C@H](N)O'' \<and>
   remove_stereoalchemy sample_chem ''CCO>>C[C@H](N)O'' = Inr ''CCO>>C[CH](N)O'' \<and>
   no_carbon sample_chem ''CCO>>[Na+].[Cl-]'' = Inr ''Error: no organic product'' \<and>
   no_carbon sample_chem ''CCO>>C]'' = Inl AttributeError \<and>
   remove_stereoalchemy sample_chem ''CCO>>C]'' = Inr ''CCO>>C]'' \<and>
   no_carbon sample_chem ''CCO'' = Inl IndexError"
proof -
  have s1: "split ''>>'' ''CCO>>C[C@H](N)O'' = [''CCO'', ''C[C@H](N)O'']"
    and s2: "split ''>>'' ''CCO>>[Na+].[Cl-]'' = [''CCO'', ''[Na+].[Cl-]'']"
    and s3: "split ''>>'' ''CCO>>C]'' = [''CCO'', ''C]'']"
    and s4: "\<not> contains ''>>'' ''CCO''"
    by (simp_all add: split.simps contains_def)
  have m1: "MolFromSmiles sample_chem ''C[C@H](N)O''
      = Some [(''C'', None), (''C@H'', None), (''('', None), (''N'', None), ('')'', None), (''O'', None)]"
    and m2: "MolFromSmiles sample_chem ''[Na+].[Cl-]''
      = Some [(''Na+'', None), (''.'', None), (''Cl-'', None)]"
    and m3: "MolFromSmiles sample_chem ''C]'' = None"
    by (simp_all add: sample_chem_def bracket_atom_def split.simps)
  note t1 = cleaning_functions_results
    [of "''CCO>>C[C@H](N)O''" sample_chem "''CCO''" "''C[C@H](N)O''" "[]"
      "[(''C'', None), (''C@H'', None), (''('', None), (''N'', None), ('')'', None), (''O'', None)]"]
  note t2 = cleaning_functions_results
    [of "''CCO>>[Na+].[Cl-]''" sample_chem "''CCO''" "''[Na+].[Cl-]''" "[]"
      "[(''Na+'', None), (''.'', None), (''Cl-'', None)]"]
  note t3 = cleaning_functions_results
    [of "''CCO>>C]''" sample_chem "''CCO''" "''C]''" "[]"]
  note t4 = cleaning_functions_results [of "''CCO''" sample_chem]
  have c1: "HasCarbon sample_chem [(''C'', None), (''C@H'', None), (''('', None), (''N'', None), ('')'', None), (''O'', None)]"
    and c2: "\<not> HasCarbon sample_chem [(''Na+'', None), (''.'', None), (''Cl-'', None)]"
    by (simp_all add: sample_chem_def is_carbon_def)
  have r1: "replace ''C[C@H](N)O'' ''C[CH](N)O'' ''CCO>>C[C@H](N)O'' = ''CCO>>C[CH](N)O''"
    by (simp add: replace.simps)
  have n1: "MolToSmiles sample_chem (RemoveStereochemistry sample_chem
      [(''C'', None), (''C@H'', None), (''('', None), (''N'', None), ('')'', None), (''O'', None)])
     = ''C[CH](N)O''"
    by (simp add: sample_chem_def)
  have a: "contains ''@'' ''C[C@H](N)O''" "\<not> contains ''@'' ''CCO''" "\<not> contains ''@'' ''C]''"
    by (simp_all add: contains_def)
  from t1 s1 m1 c1 r1 n1 a
  have "no_carbon sample_chem ''CCO>>C[C@H](N)O'' = Inr ''CCO>>C[C@H](N)O''"
    "remove_stereoalchemy sample_chem ''CCO>>C[C@H](N)O'' = Inr ''CCO>>C[CH](N)O''"
    by simp_all
  moreover from t2 s2 m2 c2
  have "no_carbon sample_chem ''CCO>>[Na+].[Cl-]'' = Inr ''Error: no organic product''"
    by simp
  moreover from t3 s3 m3 a
  have "no_carbon sample_chem ''CCO>>C]'' = Inl AttributeError"
    "remove_stereoalchemy sample_chem ''CCO>>C]'' = Inr ''CCO>>C]''"
    by simp_all
  moreover from t4 s4 have "no_carbon sample_chem ''CCO'' = Inl IndexError" by simp
  ultimately show ?thesis by simp
qed

text \<open>
  Claim C1. The row \<^verbatim>\<open>C C>O>CC\<close> has exactly two \<^verbatim>\<open>>\<close> characters, so the first
  filter of \<^verbatim>\<open>clean_dataset\<close> keeps it. \<^verbatim>\<open>untangle_tildes\<close> returns it unchanged
  and \<^verbatim>\<open>join_reactants_reagents\<close> returns \<^verbatim>\<open>C C.O>>CC\<close>. \<^verbatim>\<open>remove_fragment_info\<close>
  cuts this at the blank and returns \<^verbatim>\<open>C\<close>, which has no \<^verbatim>\<open>>>\<close> any more, and
  \<^verbatim>\<open>remove_reagents\<close>, the next stage, raises \<^verbatim>\<open>IndexError\<close> on it instead of
  returning a string or a sentinel.
\<close>

theorem remove_reagents_raises_after_truncation:
  "length (filter (\<lambda>c. c = CHR ''>'') ''C C>O>CC'') = 2 \<and>
   untangle_tildes fragment ''C C>O>CC'' = Inr ''C C>O>CC'' \<and>
   join_reactants_reagents ''C C>O>CC'' = Inr ''C C.O>>CC'' \<and>
   remove_fragment_info ''C C.O>>CC'' = Inr ''C'' \<and>
   remove_reagents ch ''C'' = Inl IndexError"
  by (simp add: untangle_tildes_def join_reactants_reagents_def remove_fragment_info_def
      remove_reagents_def contains_def split.simps item_def)

section \<open>Template extraction: LocalTemplate/extract_from_train_data.py\<close>

text \<open>
  A Python \<^verbatim>\<open>dict\<close> is modelled by the list of its items in insertion order. The keys
  of a dict are distinct; where a list repeats a key, the first item stands for it.
\<close>

definition dict_len :: "('k \<times> 'v) list \<Rightarrow> nat" where
  "dict_len d = length (remdups (map fst d))"

definition getitem :: "('k \<times> 'v) list \<Rightarrow> 'k \<Rightarrow> py_error + 'v" where
  "getitem d k = (case map_of d k of None \<Rightarrow> Inl KeyError | Some v \<Rightarrow> Inr v)"

text \<open>\<^verbatim>\<open>d[k] = v\<close>: the value of an existing key is replaced in place, a new key is appended.\<close>

fun dict_set :: "'k \<Rightarrow> 'v \<Rightarrow> ('k \<times> 'v) list \<Rightarrow> ('k \<times> 'v) list" where
  "dict_set k v [] = [(k, v)]"
| "dict_set k v (kv # d) = (if fst kv = k then (k, v) # d else kv # dict_set k v d)"

text \<open>\<^verbatim>\<open>d[k]\<close> and \<^verbatim>\<open>d[k] += 1\<close> on a \<^verbatim>\<open>defaultdict(int)\<close>.\<close>

definition count_of :: "('k \<times> nat) list \<Rightarrow> 'k \<Rightarrow> nat" where
  "count_of d k = (case map_of d k of None \<Rightarrow> 0 | Some n \<Rightarrow> n)"

definition dict_incr :: "'k \<Rightarrow> ('k \<times> nat) list \<Rightarrow> ('k \<times> nat) list" where
  "dict_incr k d = dict_set k (count_of d k + 1) d"

text \<open>A list comprehension whose element expression may raise.\<close>

fun collect :: "('a \<Rightarrow> py_error + 'b) \<Rightarrow> 'a list \<Rightarrow> py_error + 'b list" where
  "collect f [] = Inr []"
| "collect f (x # xs) =
     (case f x of Inl e \<Rightarrow> Inl e | Inr y \<Rightarrow>
      case collect f xs of Inl e \<Rightarrow> Inl e | Inr ys \<Rightarrow> Inr (y # ys))"

text \<open>\<^verbatim>\<open>str(n)\<close> for a Python integer.\<close>

definition digit_char :: "nat \<Rightarrow> char" where
  "digit_char n = ''0123456789'' ! (n mod 10)"

fun str_nat :: "nat \<Rightarrow> string" where
  "str_nat n = (if n < 10 then [digit_char n] else str_nat (n div 10) @ [digit_char n])"

declare str_nat.simps [simp del]

definition str_int :: "int \<Rightarrow> string" where
  "str_int i = (if i < 0 then CHR ''-'' # str_nat (nat (- i)) else str_nat (nat i))"

text \<open>
  The change dictionaries \<^verbatim>\<open>H_change\<close>, \<^verbatim>\<open>Charge_change\<close> and
  \<^verbatim>\<open>Chiral_change\<close> map a site number to an integer code.
\<close>

type_synonym change = "(int \<times> int) list"

text \<open>\<^verbatim>\<open>''.join([str(change[k+1]) for k in range(len(change))])\<close>.\<close>

definition change_code :: "change \<Rightarrow> py_error + string" where
  "change_code d =
     (case collect (\<lambda>k. getitem d (int k + 1)) [0..<dict_len d] of
        Inl e \<Rightarrow> Inl e
      | Inr vs \<Rightarrow> Inr (join [] (map str_int vs)))"

definition get_full_template :: "string \<Rightarrow> change \<Rightarrow> change \<Rightarrow> change \<Rightarrow> py_error + string" where
  "get_full_template template H_change Charge_change Chiral_change =
     (case change_code H_change of Inl e \<Rightarrow> Inl e | Inr H_code \<Rightarrow>
      case change_code Charge_change of Inl e \<Rightarrow> Inl e | Inr Charge_code \<Rightarrow>
      case change_code Chiral_change of Inl e \<Rightarrow> Inl e | Inr Chiral_code \<Rightarrow>
        if Chiral_code = [] then Inr (join ''_'' [template, H_code, Charge_code])
        else Inr (join ''_'' [template, H_code, Charge_code, Chiral_code]))"


text \<open>
  The extractor (\<^verbatim>\<open>template_extractor.extract_from_reaction\<close>) is not among the
  sources; \<^verbatim>\<open>extract_templates\<close> takes it as an argument, and so does the model. It
  receives the dictionary \<^verbatim>\<open>{'reactants', 'products', '_id'}\<close> and returns a
  dictionary or raises (\<open>Inl\<close>; a returned value that is no dictionary makes line 66 raise
  and is an \<open>Inl\<close> as well). Of the returned dictionary the source reads the keys
  \<^verbatim>\<open>reaction_smarts\<close>, \<^verbatim>\<open>edits\<close>, \<^verbatim>\<open>H_change\<close>, \<^verbatim>\<open>Charge_change\<close> and
  \<^verbatim>\<open>Chiral_change\<close> and tests the presence of \<^verbatim>\<open>reactants\<close>; each may be missing
  (\<open>None\<close>). The value of \<^verbatim>\<open>edits\<close> maps an edit type to a tuple of three lists, of
  which the source reads components 0 and 2.
\<close>

type_synonym 'e edit = "'e list \<times> 'e list \<times> 'e list"

record 'e extraction =
  has_reactants :: bool
  reaction_smarts :: "string option"
  edits :: "(string \<times> 'e edit) list option"
  H_change :: "change option"
  Charge_change :: "change option"
  Chiral_change :: "change option"

type_synonym 'e extractor = "string \<times> string \<times> nat \<Rightarrow> py_error + 'e extraction"

text \<open>The two entries of \<^verbatim>\<open>args\<close> that \<^verbatim>\<open>extract_templates\<close> reads, by their truth value.\<close>

record args =
  use_stereo :: bool
  retro :: bool

text \<open>
  \<^verbatim>\<open>get_reaction_template\<close> also returns the dictionary it built; its caller does not
  use it, and the model returns the extractor's result only.
\<close>

definition get_reaction_template ::
  "'e extractor \<Rightarrow> string \<Rightarrow> nat \<Rightarrow> py_error + 'e extraction" where
  "get_reaction_template extractor rxn i =
     (case item (split ''>>'' rxn) 0 of Inl e \<Rightarrow> Inl e | Inr reactants \<Rightarrow>
      case item (split ''>>'' rxn) 1 of Inl e \<Rightarrow> Inl e | Inr products \<Rightarrow>
        extractor (reactants, products, i))"

text \<open>
  What one record's \<^verbatim>\<open>try\<close> block computes before it touches the registry (lines 65
  to 76): the label \<^verbatim>\<open>template_H\<close> with the edits and the three change dictionaries,
  or the exception raised.
\<close>

record 'e found =
  label :: string
  found_edits :: "(string \<times> 'e edit) list"
  found_H :: change
  found_C :: change
  found_S :: change

definition template_of ::
  "args \<Rightarrow> 'e extractor \<Rightarrow> nat \<Rightarrow> string \<Rightarrow> py_error + 'e found" where
  "template_of args extractor i reaction =
     (case get_reaction_template extractor reaction i of Inl e \<Rightarrow> Inl e | Inr result \<Rightarrow>
      if \<not> has_reactants result \<or> reaction_smarts result = None then Inl TemplateProblem
      else
      case reaction_smarts result of None \<Rightarrow> Inl KeyError | Some template \<Rightarrow>
      case edits result of None \<Rightarrow> Inl KeyError | Some eds \<Rightarrow>
      case H_change result of None \<Rightarrow> Inl KeyError | Some H \<Rightarrow>
      case Charge_change result of None \<Rightarrow> Inl KeyError | Some C \<Rightarrow>
      case (if use_stereo args
            then (case Chiral_change result of None \<Rightarrow> Inl KeyError | Some S \<Rightarrow> Inr S)
            else Inr []) of Inl e \<Rightarrow> Inl e | Inr S \<Rightarrow>
      case get_full_template template H C S of Inl e \<Rightarrow> Inl e | Inr template_H \<Rightarrow>
        Inr \<lparr> label = template_H, found_edits = eds, found_H = H, found_C = C, found_S = S \<rparr>)"

text \<open>The dictionaries and the label list of \<^verbatim>\<open>extract_templates\<close>.\<close>

record 'e registry =
  TemplateEdits :: "(string \<times> (string \<times> 'e list) list) list"
  TemplateCs :: "(string \<times> change) list"
  TemplateHs :: "(string \<times> change) list"
  TemplateSs :: "(string \<times> change) list"
  TemplateFreq :: "(string \<times> nat) list"
  templates_A :: "(string \<times> nat) list"
  templates_B :: "(string \<times> nat) list"
  template_labels :: "string list"

definition empty_registry :: "'e registry" where
  "empty_registry =
     \<lparr> TemplateEdits = [], TemplateCs = [], TemplateHs = [], TemplateSs = [],
       TemplateFreq = [], templates_A = [], templates_B = [], template_labels = [] \<rparr>"

text \<open>
  Lines 77 to 84: a label not yet a key of \<^verbatim>\<open>TemplateHs\<close> is entered with its edit
  sites and change dictionaries; the label is appended and its frequency incremented.
  \<open>edit_sites\<close> is \<^verbatim>\<open>{edit_type: edits[edit_type][2] for edit_type in edits}\<close>.
\<close>

definition edit_sites :: "'e found \<Rightarrow> (string \<times> 'e list) list" where
  "edit_sites t = map (\<lambda>(edit_type, e). (edit_type, snd (snd e))) (found_edits t)"

definition register :: "'e found \<Rightarrow> 'e registry \<Rightarrow> 'e registry" where
  "register t st =
     (let template_H = label t;
          st1 = (if template_H \<notin> fst ` set (TemplateHs st) then
                   st \<lparr> TemplateEdits := dict_set template_H (edit_sites t) (TemplateEdits st),
                        TemplateHs := dict_set template_H (found_H t) (TemplateHs st),
                        TemplateCs := dict_set template_H (found_C t) (TemplateCs st),
                        TemplateSs := dict_set template_H (found_S t) (TemplateSs st) \<rparr>
                 else st)
      in st1 \<lparr> template_labels := template_labels st1 @ [template_H],
               TemplateFreq := dict_incr template_H (TemplateFreq st1) \<rparr>)"

text \<open>Lines 86 to 102: the atom and bond template counters, one edit type at a time.\<close>

definition count_edit ::
  "args \<Rightarrow> string \<Rightarrow> string \<times> 'e edit \<Rightarrow> 'e registry \<Rightarrow> 'e registry" where
  "count_edit args template_H entry st =
     (let edit_type = fst entry; bonds = fst (snd entry) in
      if length bonds > 0 then
        if retro args then
          if edit_type \<in> {''A'', ''R''}
          then st \<lparr> templates_A := dict_incr template_H (templates_A st) \<rparr>
          else st \<lparr> templates_B := dict_incr template_H (templates_B st) \<rparr>
        else
          if edit_type \<noteq> ''A''
          then st \<lparr> templates_A := dict_incr (template_H @ ''_'' @ edit_type) (templates_A st) \<rparr>
          else st \<lparr> templates_B := dict_incr (template_H @ ''_'' @ edit_type) (templates_B st) \<rparr>
      else st)"

text \<open>
  One iteration of the loop: the \<^verbatim>\<open>try\<close> block, and the \<^verbatim>\<open>except Exception\<close>
  branch that appends the sentinel. The progress line printed every 10000 records and
  the \<^verbatim>\<open>KeyboardInterrupt\<close> branch are not modelled.
\<close>

definition scan_step ::
  "args \<Rightarrow> 'e extractor \<Rightarrow> nat \<Rightarrow> string \<Rightarrow> 'e registry \<Rightarrow> 'e registry" where
  "scan_step args extractor i reaction st =
     (case template_of args extractor i reaction of
        Inl e \<Rightarrow> st \<lparr> template_labels := template_labels st @ [''NaN''] \<rparr>
      | Inr t \<Rightarrow> fold (count_edit args (label t)) (found_edits t) (register t st))"

fun scan ::
  "args \<Rightarrow> 'e extractor \<Rightarrow> nat \<Rightarrow> string list \<Rightarrow> 'e registry \<Rightarrow> 'e registry" where
  "scan args extractor i [] st = st"
| "scan args extractor i (reaction # rxns) st =
     scan args extractor (Suc i) rxns (scan_step args extractor i reaction st)"

text \<open>A row of the \<^verbatim>\<open>template_infos\<close> table.\<close>

record 'e template_info =
  Template :: string
  edit_site :: "(string \<times> 'e list) list"
  change_H :: change
  change_C :: change
  change_S :: change
  Frequency :: nat

definition template_row :: "'e registry \<Rightarrow> string \<Rightarrow> py_error + 'e template_info" where
  "template_row st k =
     (case getitem (TemplateEdits st) k of Inl e \<Rightarrow> Inl e | Inr ed \<Rightarrow>
      case getitem (TemplateHs st) k of Inl e \<Rightarrow> Inl e | Inr h \<Rightarrow>
      case getitem (TemplateCs st) k of Inl e \<Rightarrow> Inl e | Inr c \<Rightarrow>
      case getitem (TemplateSs st) k of Inl e \<Rightarrow> Inl e | Inr s \<Rightarrow>
        Inr \<lparr> Template = k, edit_site = ed, change_H = h, change_C = c, change_S = s,
              Frequency = count_of (TemplateFreq st) k \<rparr>)"

definition extract_templates ::
  "string list \<Rightarrow> args \<Rightarrow> 'e extractor \<Rightarrow> py_error + ('e template_info list \<times> string list)" where
  "extract_templates rxns args extractor =
     (let st = scan args extractor 0 rxns empty_registry in
      case collect (template_row st) (map fst (TemplateHs st)) of
        Inl e \<Rightarrow> Inl e
      | Inr template_infos \<Rightarrow> Inr (template_infos, template_labels st))"

text \<open>
  A sample extractor, to instantiate the theorems at concrete records: it raises for the
  product \<^verbatim>\<open>X\<close>, returns a result without the required keys for the product
  \<^verbatim>\<open>Y\<close>, and otherwise returns the product as the pattern, edit sites that depend on
  the record's index, and chirality changes only for the reactant \<^verbatim>\<open>S\<close>.
\<close>

definition sample_extractor :: "nat extractor" where
  "sample_extractor rxn =
     (case rxn of (reactants, products, i) \<Rightarrow>
        if products = ''X'' then Inl ExtractorFailure
        else if products = ''Y'' then
          Inr \<lparr> has_reactants = False, reaction_smarts = None, edits = None,
                H_change = None, Charge_change = None, Chiral_change = None \<rparr>
        else
          Inr \<lparr> has_reactants = True, reaction_smarts = Some products,
                edits = Some [(''A'', ([i], [], [i, i + 1])), (''B'', ([], [], []))],
                H_change = Some [(1, 0), (2, 1)],
                Charge_change = Some [(1, 0), (2, 0)],
                Chiral_change = Some (if reactants = ''S'' then [(1, 0), (2, 2)] else []) \<rparr>)"

section \<open>Properties of the template extraction\<close>

subsection \<open>Facts about the dictionaries\<close>

lemma map_of_dict_set: "map_of (dict_set k v d) = (map_of d)(k \<mapsto> v)"
  by (induction d) (auto simp: fun_eq_iff)

lemma keys_dict_set:
  "map fst (dict_set k v d) = (if k \<in> fst ` set d then map fst d else map fst d @ [k])"
  by (induction d) auto

lemma count_of_dict_incr:
  "count_of (dict_incr k d) k' = (if k' = k then count_of d k + 1 else count_of d k')"
  by (simp add: count_of_def dict_incr_def map_of_dict_set)

lemma keys_dict_incr:
  "map fst (dict_incr k d) = (if k \<in> fst ` set d then map fst d else map fst d @ [k])"
  by (simp add: dict_incr_def keys_dict_set)

lemma sum_dict_set:
  "sum_list (map snd (dict_set k v d)) + count_of d k = sum_list (map snd d) + v"
  by (induction d) (auto simp: count_of_def)

lemma sum_dict_incr: "sum_list (map snd (dict_incr k d)) = sum_list (map snd d) + 1"
  using sum_dict_set [of k "count_of d k + 1" d] by (simp add: dict_incr_def)

lemma sum_counts_distinct:
  "distinct (map fst d) \<Longrightarrow> sum_list (map (count_of d) (map fst d)) = sum_list (map snd d)"
proof (induction d)
  case Nil
  then show ?case by simp
next
  case (Cons kv d)
  have hd: "count_of (kv # d) (fst kv) = snd kv"
    by (cases kv) (simp add: count_of_def)
  have "count_of (kv # d) k = count_of d k" if "k \<in> fst ` set d" for k
    using that Cons.prems by (cases kv) (force simp: count_of_def)
  then have tl: "map (count_of (kv # d)) (map fst d) = map (count_of d) (map fst d)"
    by simp
  from Cons have ih: "sum_list (map (count_of d) (map fst d)) = sum_list (map snd d)"
    by simp
  have "sum_list (map (count_of (kv # d)) (map fst (kv # d)))
      = count_of (kv # d) (fst kv) + sum_list (map (count_of (kv # d)) (map fst d))"
    by simp
  also have "\<dots> = snd kv + sum_list (map snd d)"
    by (simp only: hd tl ih)
  finally show ?case by simp
qed

lemma getitem_key: "k \<in> fst ` set d \<Longrightarrow> \<exists>v. getitem d k = Inr v \<and> map_of d k = Some v"
  by (cases "map_of d k") (auto simp: getitem_def map_of_eq_None_iff)

lemma collect_Inr:
  "(\<And>x. x \<in> set xs \<Longrightarrow> f x = Inr (g x)) \<Longrightarrow> collect f xs = Inr (map g xs)"
  by (induction xs) auto

lemma join_Nil: "join [] xs = concat xs"
  by (induction "[] :: string" xs rule: join.induct) auto

lemma str_nat_not_Nil: "str_nat n \<noteq> []"
  by (subst str_nat.simps) simp

lemma str_int_not_Nil: "str_int i \<noteq> []"
  by (simp add: str_int_def str_nat_not_Nil)

lemma str_int_digit: "0 \<le> i \<Longrightarrow> i < 10 \<Longrightarrow> length (str_int i) = 1"
  by (simp add: str_int_def str_nat.simps)

lemma get_full_template_underscore:
  "get_full_template template H C S = Inr l \<Longrightarrow> CHR ''_'' \<in> set l"
  by (auto simp: get_full_template_def split: sum.splits if_splits)

lemma template_of_label_not_NaN:
  assumes "template_of args ex i r = Inr t"
  shows "label t \<noteq> ''NaN''"
proof -
  from assms obtain template H C S where "get_full_template template H C S = Inr (label t)"
    by (auto simp: template_of_def split: sum.splits if_splits option.splits)
  from get_full_template_underscore [OF this] show ?thesis by auto
qed

subsection \<open>The scan and its invariant\<close>

text \<open>
  The outcome of a record is what its \<^verbatim>\<open>try\<close> block computes before it touches the
  registry. It does not depend on the registry, so the outcomes of all records can be
  listed beforehand, in input order.
\<close>

definition outcomes ::
  "args \<Rightarrow> 'e extractor \<Rightarrow> nat \<Rightarrow> string list \<Rightarrow> (py_error + 'e found) list" where
  "outcomes args extractor i rxns =
     map (\<lambda>(j, reaction). template_of args extractor j reaction) (enumerate i rxns)"

definition label_of :: "py_error + 'e found \<Rightarrow> string" where
  "label_of out = (case out of Inl e \<Rightarrow> ''NaN'' | Inr t \<Rightarrow> label t)"

definition produces :: "string \<Rightarrow> py_error + 'e found \<Rightarrow> bool" where
  "produces k out = (case out of Inl e \<Rightarrow> False | Inr t \<Rightarrow> label t = k)"

definition succeeded :: "py_error + 'e found \<Rightarrow> bool" where
  "succeeded out = (case out of Inl e \<Rightarrow> False | Inr t \<Rightarrow> True)"

definition inv_keys :: "'e registry \<Rightarrow> (py_error + 'e found) list \<Rightarrow> bool" where
  "inv_keys st os \<longleftrightarrow>
     distinct (map fst (TemplateHs st)) \<and>
     map fst (TemplateEdits st) = map fst (TemplateHs st) \<and>
     map fst (TemplateCs st) = map fst (TemplateHs st) \<and>
     map fst (TemplateSs st) = map fst (TemplateHs st) \<and>
     map fst (TemplateFreq st) = map fst (TemplateHs st) \<and>
     fst ` set (TemplateHs st) = {k. \<exists>out \<in> set os. produces k out}"

definition inv_labels :: "'e registry \<Rightarrow> (py_error + 'e found) list \<Rightarrow> bool" where
  "inv_labels st os \<longleftrightarrow>
     template_labels st = map label_of os \<and>
     sum_list (map snd (TemplateFreq st)) = length (filter succeeded os)"

definition inv_entry :: "'e registry \<Rightarrow> (py_error + 'e found) list \<Rightarrow> string \<Rightarrow> bool" where
  "inv_entry st os k \<longleftrightarrow>
     count_of (TemplateFreq st) k = length (filter (produces k) os) \<and>
     (\<exists>t. find (produces k) os = Some (Inr t) \<and>
          map_of (TemplateEdits st) k = Some (edit_sites t) \<and>
          map_of (TemplateHs st) k = Some (found_H t) \<and>
          map_of (TemplateCs st) k = Some (found_C t) \<and>
          map_of (TemplateSs st) k = Some (found_S t))"

definition registry_inv :: "'e registry \<Rightarrow> (py_error + 'e found) list \<Rightarrow> bool" where
  "registry_inv st os \<longleftrightarrow>
     inv_keys st os \<and> inv_labels st os \<and> (\<forall>k \<in> fst ` set (TemplateHs st). inv_entry st os k)"

lemma find_append_Some: "find P xs = Some x \<Longrightarrow> find P (xs @ ys) = Some x"
  by (induction xs) (auto split: if_splits)

lemma find_append_None: "find P xs = None \<Longrightarrow> find P (xs @ ys) = find P ys"
  by (induction xs) (auto split: if_splits)

lemma registry_inv_empty: "registry_inv empty_registry []"
  by (simp add: registry_inv_def inv_keys_def inv_labels_def empty_registry_def)

lemma registry_inv_failure:
  assumes "registry_inv st os"
  shows "registry_inv (st \<lparr> template_labels := template_labels st @ [''NaN''] \<rparr>) (os @ [Inl e])"
proof -
  have k: "inv_keys (st \<lparr> template_labels := template_labels st @ [''NaN''] \<rparr>) (os @ [Inl e])"
    using assms by (auto simp: registry_inv_def inv_keys_def produces_def)
  have l: "inv_labels (st \<lparr> template_labels := template_labels st @ [''NaN''] \<rparr>) (os @ [Inl e])"
    using assms by (simp add: registry_inv_def inv_labels_def label_of_def succeeded_def)
  have "inv_entry (st \<lparr> template_labels := template_labels st @ [''NaN''] \<rparr>) (os @ [Inl e]) k"
    if "k \<in> fst ` set (TemplateHs st)" for k
  proof -
    from assms that have "inv_entry st os k" by (auto simp: registry_inv_def)
    then show ?thesis
      by (auto simp: inv_entry_def produces_def dest: find_append_Some)
  qed
  with k l show ?thesis by (simp add: registry_inv_def)
qed

lemma registry_inv_counters:
  "registry_inv (st \<lparr> templates_A := a \<rparr>) os = registry_inv st os"
  "registry_inv (st \<lparr> templates_B := b \<rparr>) os = registry_inv st os"
  by (simp_all add: registry_inv_def inv_keys_def inv_labels_def inv_entry_def)

lemma registry_inv_count_edit:
  "registry_inv (count_edit args l entry st) os = registry_inv st os"
  by (simp add: count_edit_def Let_def registry_inv_counters)

lemma registry_inv_fold_count_edit:
  "registry_inv (fold (count_edit args l) eds st) os = registry_inv st os"
  by (induction eds arbitrary: st) (simp_all add: registry_inv_count_edit)

lemma keys_eq_set: "map fst a = map fst b \<Longrightarrow> fst ` set a = fst ` set b"
  by (metis set_map)

lemma count_of_absent: "k \<notin> fst ` set d \<Longrightarrow> count_of d k = 0"
  by (simp add: count_of_def map_of_eq_None_iff [THEN iffD2])

lemma filter_produces_absent:
  "k \<notin> {k. \<exists>out \<in> set os. produces k out} \<Longrightarrow> filter (produces k) os = [] \<and> find (produces k) os = None"
  by (auto simp: filter_empty_conv find_None_iff)

lemma register_known:
  assumes "label t \<in> fst ` set (TemplateHs st)"
  shows "register t st =
     st \<lparr> template_labels := template_labels st @ [label t],
          TemplateFreq := dict_incr (label t) (TemplateFreq st) \<rparr>"
  using assms by (simp add: register_def Let_def)

lemma register_new:
  assumes "label t \<notin> fst ` set (TemplateHs st)"
  shows "register t st =
     st \<lparr> TemplateEdits := dict_set (label t) (edit_sites t) (TemplateEdits st),
          TemplateHs := dict_set (label t) (found_H t) (TemplateHs st),
          TemplateCs := dict_set (label t) (found_C t) (TemplateCs st),
          TemplateSs := dict_set (label t) (found_S t) (TemplateSs st),
          template_labels := template_labels st @ [label t],
          TemplateFreq := dict_incr (label t) (TemplateFreq st) \<rparr>"
  using assms by (simp add: register_def Let_def)

lemma registry_inv_register_known:
  assumes inv: "registry_inv st os" and known: "label t \<in> fst ` set (TemplateHs st)"
  shows "registry_inv (register t st) (os @ [Inr t])"
proof -
  define st' where "st' = register t st"
  have flds: "TemplateEdits st' = TemplateEdits st" "TemplateHs st' = TemplateHs st"
    "TemplateCs st' = TemplateCs st" "TemplateSs st' = TemplateSs st"
    "TemplateFreq st' = dict_incr (label t) (TemplateFreq st)"
    "template_labels st' = template_labels st @ [label t]"
    unfolding st'_def register_known [OF known] by simp_all
  from inv have ik: "inv_keys st os" and il: "inv_labels st os"
    and ie: "\<And>k. k \<in> fst ` set (TemplateHs st) \<Longrightarrow> inv_entry st os k"
    by (auto simp: registry_inv_def)
  from ik have "map fst (TemplateFreq st) = map fst (TemplateHs st)"
    by (simp add: inv_keys_def)
  then have fk: "fst ` set (TemplateFreq st) = fst ` set (TemplateHs st)"
    by (rule keys_eq_set)
  with known have kf: "map fst (dict_incr (label t) (TemplateFreq st)) = map fst (TemplateFreq st)"
    by (simp add: keys_dict_incr)
  from ik known have prod: "\<exists>out \<in> set os. produces (label t) out"
    by (auto simp: inv_keys_def)
  have "{k. \<exists>out \<in> set (os @ [Inr t]). produces k out} = {k. \<exists>out \<in> set os. produces k out}"
    using prod by (auto simp: produces_def)
  with ik kf have k: "inv_keys st' (os @ [Inr t])"
    by (simp add: inv_keys_def flds)
  have l: "inv_labels st' (os @ [Inr t])"
    using il by (simp add: inv_labels_def flds label_of_def succeeded_def sum_dict_incr)
  have e: "inv_entry st' (os @ [Inr t]) k" if "k \<in> fst ` set (TemplateHs st)" for k
  proof -
    from ie [OF that] obtain t' where
      c: "count_of (TemplateFreq st) k = length (filter (produces k) os)"
      and f: "find (produces k) os = Some (Inr t')"
      and m: "map_of (TemplateEdits st) k = Some (edit_sites t')"
        "map_of (TemplateHs st) k = Some (found_H t')"
        "map_of (TemplateCs st) k = Some (found_C t')"
        "map_of (TemplateSs st) k = Some (found_S t')"
      by (auto simp: inv_entry_def)
    have "count_of (dict_incr (label t) (TemplateFreq st)) k
        = length (filter (produces k) (os @ [Inr t]))"
      using c by (auto simp: count_of_dict_incr produces_def)
    with find_append_Some [OF f, of "[Inr t]"] m show ?thesis
      by (simp add: inv_entry_def flds)
  qed
  from k l e have "registry_inv st' (os @ [Inr t])"
    by (simp add: registry_inv_def flds(2))
  then show ?thesis by (simp add: st'_def)
qed

lemma registry_inv_register_new:
  assumes inv: "registry_inv st os" and new: "label t \<notin> fst ` set (TemplateHs st)"
  shows "registry_inv (register t st) (os @ [Inr t])"
proof -
  let ?l = "label t"
  define st' where "st' = register t st"
  have flds: "TemplateEdits st' = dict_set ?l (edit_sites t) (TemplateEdits st)"
    "TemplateHs st' = dict_set ?l (found_H t) (TemplateHs st)"
    "TemplateCs st' = dict_set ?l (found_C t) (TemplateCs st)"
    "TemplateSs st' = dict_set ?l (found_S t) (TemplateSs st)"
    "TemplateFreq st' = dict_incr ?l (TemplateFreq st)"
    "template_labels st' = template_labels st @ [?l]"
    unfolding st'_def register_new [OF new] by simp_all
  from inv have ik: "inv_keys st os" and il: "inv_labels st os"
    and ie: "\<And>k. k \<in> fst ` set (TemplateHs st) \<Longrightarrow> inv_entry st os k"
    by (auto simp: registry_inv_def)
  from ik have keys: "map fst (TemplateEdits st) = map fst (TemplateHs st)"
    "map fst (TemplateCs st) = map fst (TemplateHs st)"
    "map fst (TemplateSs st) = map fst (TemplateHs st)"
    "map fst (TemplateFreq st) = map fst (TemplateHs st)"
    and dist: "distinct (map fst (TemplateHs st))"
    and ks: "fst ` set (TemplateHs st) = {k. \<exists>out \<in> set os. produces k out}"
    by (simp_all add: inv_keys_def)
  have absent: "?l \<notin> fst ` set (TemplateEdits st)"
    "?l \<notin> fst ` set (TemplateCs st)" "?l \<notin> fst ` set (TemplateSs st)"
    "?l \<notin> fst ` set (TemplateFreq st)"
    using new keys_eq_set [OF keys(1)] keys_eq_set [OF keys(2)] keys_eq_set [OF keys(3)]
      keys_eq_set [OF keys(4)] by simp_all
  have nk: "map fst (TemplateHs st') = map fst (TemplateHs st) @ [?l]"
    using new by (simp add: flds keys_dict_set)
  have nks: "fst ` set (TemplateHs st') = insert ?l (fst ` set (TemplateHs st))"
  proof -
    have "fst ` set (TemplateHs st') = set (map fst (TemplateHs st'))" by simp
    also have "\<dots> = insert ?l (set (map fst (TemplateHs st)))" unfolding nk by simp
    finally show ?thesis by simp
  qed
  have k: "inv_keys st' (os @ [Inr t])"
    unfolding inv_keys_def
  proof (intro conjI)
    have "?l \<notin> set (map fst (TemplateHs st))" using new by simp
    with dist show "distinct (map fst (TemplateHs st'))"
      unfolding nk by simp
    show "map fst (TemplateEdits st') = map fst (TemplateHs st')"
      unfolding nk using absent keys by (simp add: flds keys_dict_set)
    show "map fst (TemplateCs st') = map fst (TemplateHs st')"
      unfolding nk using absent keys by (simp add: flds keys_dict_set)
    show "map fst (TemplateSs st') = map fst (TemplateHs st')"
      unfolding nk using absent keys by (simp add: flds keys_dict_set)
    show "map fst (TemplateFreq st') = map fst (TemplateHs st')"
      unfolding nk using absent keys by (simp add: flds keys_dict_incr)
    have "insert ?l (fst ` set (TemplateHs st)) = {k. \<exists>out \<in> set (os @ [Inr t]). produces k out}"
      unfolding ks by (auto simp: produces_def)
    with nks show "fst ` set (TemplateHs st') = {k. \<exists>out \<in> set (os @ [Inr t]). produces k out}"
      by simp
  qed
  have l: "inv_labels st' (os @ [Inr t])"
    using il by (simp add: inv_labels_def flds label_of_def succeeded_def sum_dict_incr)
  have e_new: "inv_entry st' (os @ [Inr t]) ?l"
  proof -
    from new ks have "?l \<notin> {k. \<exists>out \<in> set os. produces k out}" by simp
    from filter_produces_absent [OF this]
    have fe: "filter (produces ?l) os = []" and fn: "find (produces ?l) os = None" by simp_all
    have "find (produces ?l) (os @ [Inr t]) = Some (Inr t)"
      using find_append_None [OF fn, of "[Inr t]"] by (simp add: produces_def)
    moreover have "count_of (TemplateFreq st') ?l = length (filter (produces ?l) (os @ [Inr t]))"
      using fe absent(4) by (simp add: flds count_of_dict_incr count_of_absent produces_def)
    ultimately show ?thesis
      by (simp add: inv_entry_def flds map_of_dict_set)
  qed
  have e_old: "inv_entry st' (os @ [Inr t]) k" if "k \<in> fst ` set (TemplateHs st)" for k
  proof -
    from that new have ne: "k \<noteq> ?l" by blast
    from ie [OF that] obtain t' where
      c: "count_of (TemplateFreq st) k = length (filter (produces k) os)"
      and f: "find (produces k) os = Some (Inr t')"
      and m: "map_of (TemplateEdits st) k = Some (edit_sites t')"
        "map_of (TemplateHs st) k = Some (found_H t')"
        "map_of (TemplateCs st) k = Some (found_C t')"
        "map_of (TemplateSs st) k = Some (found_S t')"
      by (auto simp: inv_entry_def)
    have "count_of (TemplateFreq st') k = length (filter (produces k) (os @ [Inr t]))"
      using c ne by (auto simp: flds count_of_dict_incr produces_def)
    with find_append_Some [OF f, of "[Inr t]"] m ne show ?thesis
      by (simp add: inv_entry_def flds map_of_dict_set)
  qed
  have "inv_entry st' (os @ [Inr t]) k" if "k \<in> fst ` set (TemplateHs st')" for k
    using that e_new e_old unfolding nks by blast
  with k l have "registry_inv st' (os @ [Inr t])"
    unfolding registry_inv_def by blast
  then show ?thesis by (simp add: st'_def)
qed

lemma registry_inv_step:
  assumes "registry_inv st os"
  shows "registry_inv (scan_step args ex i r st) (os @ [template_of args ex i r])"
proof (cases "template_of args ex i r")
  case (Inl e)
  with registry_inv_failure [OF assms, of e] show ?thesis by (simp add: scan_step_def)
next
  case (Inr t)
  have "registry_inv (register t st) (os @ [Inr t])"
    using registry_inv_register_known [OF assms] registry_inv_register_new [OF assms]
    by (cases "label t \<in> fst ` set (TemplateHs st)") blast+
  with Inr show ?thesis by (simp add: scan_step_def registry_inv_fold_count_edit)
qed

lemma registry_inv_scan:
  "registry_inv st os \<Longrightarrow>
     registry_inv (scan args ex i rxns st) (os @ outcomes args ex i rxns)"
proof (induction rxns arbitrary: i st os)
  case Nil
  then show ?case by (simp add: outcomes_def)
next
  case (Cons r rxns)
  from Cons.IH [OF registry_inv_step [OF Cons.prems, of args ex i r], of "Suc i"]
  show ?case by (simp add: outcomes_def enumerate_simps)
qed

subsection \<open>The returned table and label sequence\<close>

lemma collect_all2:
  "\<forall>x \<in> set xs. \<exists>y. f x = Inr y \<Longrightarrow>
     \<exists>ys. collect f xs = Inr ys \<and> list_all2 (\<lambda>x y. f x = Inr y) xs ys"
proof (induction xs)
  case Nil
  then show ?case by simp
next
  case (Cons x xs)
  then obtain y ys where "f x = Inr y" "collect f xs = Inr ys"
    "list_all2 (\<lambda>x y. f x = Inr y) xs ys" by auto
  then show ?case by simp
qed

lemma template_row_key:
  assumes "inv_keys st os" and "k \<in> fst ` set (TemplateHs st)"
  shows "\<exists>row. template_row st k = Inr row \<and> Template row = k \<and>
           Frequency row = count_of (TemplateFreq st) k \<and>
           map_of (TemplateEdits st) k = Some (edit_site row) \<and>
           map_of (TemplateHs st) k = Some (change_H row) \<and>
           map_of (TemplateCs st) k = Some (change_C row) \<and>
           map_of (TemplateSs st) k = Some (change_S row)"
proof -
  from assms(1) have keys: "map fst (TemplateEdits st) = map fst (TemplateHs st)"
    "map fst (TemplateCs st) = map fst (TemplateHs st)"
    "map fst (TemplateSs st) = map fst (TemplateHs st)"
    by (simp_all add: inv_keys_def)
  from assms(2) keys_eq_set [OF keys(1)] keys_eq_set [OF keys(2)] keys_eq_set [OF keys(3)]
  have "k \<in> fst ` set (TemplateEdits st)" "k \<in> fst ` set (TemplateCs st)"
    "k \<in> fst ` set (TemplateSs st)" by simp_all
  from getitem_key [OF this(1)] getitem_key [OF assms(2)] getitem_key [OF this(2)]
    getitem_key [OF this(3)]
  obtain ed h c s where "getitem (TemplateEdits st) k = Inr ed" "map_of (TemplateEdits st) k = Some ed"
    "getitem (TemplateHs st) k = Inr h" "map_of (TemplateHs st) k = Some h"
    "getitem (TemplateCs st) k = Inr c" "map_of (TemplateCs st) k = Some c"
    "getitem (TemplateSs st) k = Inr s" "map_of (TemplateSs st) k = Some s"
    by blast
  then show ?thesis by (simp add: template_row_def)
qed

text \<open>The run of \<^verbatim>\<open>extract_templates\<close>: it always returns, and its table has one row for
  each key of the final \<^verbatim>\<open>TemplateHs\<close>, in order.\<close>

lemma extract_templates_rows:
  "\<exists>template_infos.
     extract_templates rxns args extractor =
       Inr (template_infos, template_labels (scan args extractor 0 rxns empty_registry)) \<and>
     list_all2 (\<lambda>k row. template_row (scan args extractor 0 rxns empty_registry) k = Inr row)
       (map fst (TemplateHs (scan args extractor 0 rxns empty_registry))) template_infos"
proof -
  define st where "st = scan args extractor 0 rxns empty_registry"
  have inv: "registry_inv st (outcomes args extractor 0 rxns)"
    using registry_inv_scan [OF registry_inv_empty, of args extractor 0 rxns]
    by (simp add: st_def)
  then have ik: "inv_keys st (outcomes args extractor 0 rxns)" by (simp add: registry_inv_def)
  have "\<forall>k \<in> set (map fst (TemplateHs st)). \<exists>row. template_row st k = Inr row"
    using template_row_key [OF ik] by auto
  from collect_all2 [OF this] obtain rows where
    "collect (template_row st) (map fst (TemplateHs st)) = Inr rows"
    "list_all2 (\<lambda>k row. template_row st k = Inr row) (map fst (TemplateHs st)) rows"
    by blast
  then have "extract_templates rxns args extractor = Inr (rows, template_labels st) \<and>
     list_all2 (\<lambda>k row. template_row st k = Inr row) (map fst (TemplateHs st)) rows"
    by (simp add: extract_templates_def st_def Let_def)
  then show ?thesis unfolding st_def by blast
qed

lemma rows_templates:
  assumes "list_all2 (\<lambda>k row. template_row st k = Inr row) ks rows"
  shows "map Template rows = ks"
    and "map Frequency rows = map (count_of (TemplateFreq st)) ks"
  using assms
  by (induction ks rows rule: list_all2_induct)
     (auto simp: template_row_def split: sum.splits)

lemma outcomes_length: "length (outcomes args ex i rxns) = length rxns"
  by (simp add: outcomes_def)

lemma outcomes_nth:
  "j < length rxns \<Longrightarrow> outcomes args ex i rxns ! j = template_of args ex (i + j) (rxns ! j)"
  by (simp add: outcomes_def nth_enumerate_eq)

lemma outcomes_set:
  "out \<in> set (outcomes args ex 0 rxns) \<longleftrightarrow>
     (\<exists>i<length rxns. out = template_of args ex i (rxns ! i))"
proof
  assume "out \<in> set (outcomes args ex 0 rxns)"
  then obtain j where "j < length (outcomes args ex 0 rxns)" "outcomes args ex 0 rxns ! j = out"
    by (auto simp: in_set_conv_nth)
  then show "\<exists>i<length rxns. out = template_of args ex i (rxns ! i)"
    using outcomes_nth [of j rxns args ex 0] by (auto simp: outcomes_length)
next
  assume "\<exists>i<length rxns. out = template_of args ex i (rxns ! i)"
  then obtain i where "i < length rxns" "out = template_of args ex i (rxns ! i)" by blast
  then show "out \<in> set (outcomes args ex 0 rxns)"
    using outcomes_nth [of i rxns args ex 0] nth_mem [of i "outcomes args ex 0 rxns"]
    by (simp add: outcomes_length)
qed

lemma labels_not_NaN:
  "length (filter (\<lambda>l. l \<noteq> ''NaN'') (map label_of (outcomes args ex i rxns)))
     = length (filter succeeded (outcomes args ex i rxns))"
proof -
  have "(label_of out \<noteq> ''NaN'') = succeeded out" if "out \<in> set (outcomes args ex i rxns)" for out
  proof (cases out)
    case (Inl e)
    then show ?thesis by (simp add: label_of_def succeeded_def)
  next
    case (Inr t)
    with that obtain j r where "template_of args ex j r = Inr t"
      by (auto simp: outcomes_def in_set_enumerate_eq)
    from template_of_label_not_NaN [OF this] Inr show ?thesis
      by (simp add: label_of_def succeeded_def)
  qed
  then have "filter (\<lambda>out. label_of out \<noteq> ''NaN'') (outcomes args ex i rxns)
      = filter succeeded (outcomes args ex i rxns)"
    by (intro filter_cong) auto
  then show ?thesis by (simp add: filter_map comp_def)
qed

text \<open>
  Claim C2. \<^verbatim>\<open>extract_templates\<close> returns on every list of reactions, and the
  \<^verbatim>\<open>Frequency\<close> values of the rows of the returned table add up to the number of
  labels in the returned label sequence that are not \<^verbatim>\<open>NaN\<close>.
\<close>

theorem extract_templates_frequency_sum:
  "\<exists>template_infos labels.
     extract_templates rxns args extractor = Inr (template_infos, labels) \<and>
     sum_list (map Frequency template_infos) = length (filter (\<lambda>l. l \<noteq> ''NaN'') labels)"
proof -
  define st where "st = scan args extractor 0 rxns empty_registry"
  let ?os = "outcomes args extractor 0 rxns"
  have inv: "registry_inv st ?os"
    using registry_inv_scan [OF registry_inv_empty, of args extractor 0 rxns]
    by (simp add: st_def)
  then have ik: "inv_keys st ?os" and il: "inv_labels st ?os"
    by (simp_all add: registry_inv_def)
  from extract_templates_rows [of rxns args extractor] obtain rows where
    res: "extract_templates rxns args extractor = Inr (rows, template_labels st)"
    and rows: "list_all2 (\<lambda>k row. template_row st k = Inr row) (map fst (TemplateHs st)) rows"
    by (auto simp: st_def)
  from ik have fk: "map fst (TemplateFreq st) = map fst (TemplateHs st)"
    and dist: "distinct (map fst (TemplateFreq st))"
    by (simp_all add: inv_keys_def)
  have "sum_list (map Frequency rows)
      = sum_list (map (count_of (TemplateFreq st)) (map fst (TemplateFreq st)))"
    using rows_templates(2) [OF rows] fk by simp
  also have "\<dots> = sum_list (map snd (TemplateFreq st))"
    by (rule sum_counts_distinct [OF dist])
  also have "\<dots> = length (filter succeeded ?os)"
    using il by (simp add: inv_labels_def)
  also have "\<dots> = length (filter (\<lambda>l. l \<noteq> ''NaN'') (template_labels st))"
    using il labels_not_NaN [of args extractor 0 rxns] by (simp add: inv_labels_def)
  finally show ?thesis using res by blast
qed

text \<open>The definitions to unfold when a run is evaluated at concrete records.\<close>

lemmas extraction_eval = extract_templates_def scan_step_def template_of_def
  get_reaction_template_def sample_extractor_def get_full_template_def change_code_def
  dict_len_def getitem_def str_int_def str_nat.simps digit_char_def register_def
  count_edit_def dict_incr_def count_of_def template_row_def empty_registry_def
  edit_sites_def split.simps item_def Let_def upt_rec

subsection \<open>Failing records\<close>

lemma template_of_no_separator:
  assumes "\<not> contains ''>>'' reaction"
  shows "template_of args extractor i reaction = Inl IndexError"
proof -
  from assms have "item (split ''>>'' reaction) 1 = Inl IndexError"
    using item_split_1_missing [of "''>>''" reaction] by simp
  then show ?thesis
    by (simp add: template_of_def get_reaction_template_def item_split_0)
qed

lemma template_of_extractor_raises:
  assumes "split ''>>'' reaction = r # p # rest" "extractor (r, p, i) = Inl e"
  shows "template_of args extractor i reaction = Inl e"
  using assms by (simp add: template_of_def get_reaction_template_def item_def)

lemma template_of_missing_keys:
  assumes "split ''>>'' reaction = r # p # rest" "extractor (r, p, i) = Inr result"
    and "\<not> has_reactants result \<or> reaction_smarts result = None"
  shows "template_of args extractor i reaction = Inl TemplateProblem"
  using assms by (auto simp: template_of_def get_reaction_template_def item_def)

lemma scan_step_failure:
  "template_of args extractor i reaction = Inl e \<Longrightarrow>
     scan_step args extractor i reaction st
       = st \<lparr> template_labels := template_labels st @ [''NaN''] \<rparr>"
  by (simp add: scan_step_def)

lemma final_registry:
  "registry_inv (scan args extractor 0 rxns empty_registry) (outcomes args extractor 0 rxns)"
  using registry_inv_scan [OF registry_inv_empty, of args extractor 0 rxns] by simp

text \<open>
  Claim C3. \<^verbatim>\<open>extract_templates\<close> returns on every list of reactions. The label
  sequence has the length of the input, and its entry for record \<open>i\<close> is the label of
  that record, or \<^verbatim>\<open>NaN\<close> when the record's extraction fails; a label is never
  \<^verbatim>\<open>NaN\<close>. The labels of the table's rows are exactly the labels of the records that
  succeed. A failing record leaves every dictionary as it was and appends \<^verbatim>\<open>NaN\<close>
  only, and the scan goes on with the next record. A record fails, in particular, when
  the reaction has no \<^verbatim>\<open>>>\<close>, when the extractor raises, and when the extractor's
  result lacks \<^verbatim>\<open>reactants\<close> or \<^verbatim>\<open>reaction_smarts\<close>.
\<close>

theorem extract_templates_one_label_per_record:
  "(\<exists>template_infos labels.
      extract_templates rxns args extractor = Inr (template_infos, labels) \<and>
      length labels = length rxns \<and>
      (\<forall>i<length rxns. labels ! i = label_of (template_of args extractor i (rxns ! i))) \<and>
      (\<forall>k. k \<in> set (map Template template_infos) \<longleftrightarrow>
           (\<exists>i<length rxns. produces k (template_of args extractor i (rxns ! i))))) \<and>
   (\<forall>t. template_of args extractor i reaction = Inr t \<longrightarrow> label t \<noteq> ''NaN'') \<and>
   (\<forall>e. template_of args extractor i reaction = Inl e \<longrightarrow>
        scan_step args extractor i reaction st
          = st \<lparr> template_labels := template_labels st @ [''NaN''] \<rparr>) \<and>
   (\<not> contains ''>>'' reaction \<longrightarrow> template_of args extractor i reaction = Inl IndexError) \<and>
   (split ''>>'' reaction = r # p # rest \<longrightarrow>
      (\<forall>e. extractor (r, p, i) = Inl e \<longrightarrow> template_of args extractor i reaction = Inl e) \<and>
      (\<forall>result. extractor (r, p, i) = Inr result \<longrightarrow>
         \<not> has_reactants result \<or> reaction_smarts result = None \<longrightarrow>
         template_of args extractor i reaction = Inl TemplateProblem))"
proof -
  define st' where "st' = scan args extractor 0 rxns empty_registry"
  let ?os = "outcomes args extractor 0 rxns"
  have inv: "registry_inv st' ?os" unfolding st'_def by (rule final_registry)
  then have ik: "inv_keys st' ?os" and il: "inv_labels st' ?os"
    by (simp_all add: registry_inv_def)
  from extract_templates_rows [of rxns args extractor] obtain rows where
    res: "extract_templates rxns args extractor = Inr (rows, template_labels st')"
    and rows: "list_all2 (\<lambda>k row. template_row st' k = Inr row) (map fst (TemplateHs st')) rows"
    by (auto simp: st'_def)
  from il have lab: "template_labels st' = map label_of ?os" by (simp add: inv_labels_def)
  then have len: "length (template_labels st') = length rxns" by (simp add: outcomes_length)
  have nth: "template_labels st' ! j = label_of (template_of args extractor j (rxns ! j))"
    if "j < length rxns" for j
    using that lab outcomes_nth [of j rxns args extractor 0] by (simp add: outcomes_length)
  have keys: "k \<in> set (map Template rows) \<longleftrightarrow>
      (\<exists>j<length rxns. produces k (template_of args extractor j (rxns ! j)))" for k
  proof -
    have "set (map Template rows) = fst ` set (TemplateHs st')"
      using rows_templates(1) [OF rows] by simp
    also have "\<dots> = {k. \<exists>out \<in> set ?os. produces k out}"
      using ik by (simp add: inv_keys_def)
    finally have "k \<in> set (map Template rows) \<longleftrightarrow> (\<exists>out \<in> set ?os. produces k out)"
      by simp
    also have "\<dots> \<longleftrightarrow> (\<exists>j<length rxns. produces k (template_of args extractor j (rxns ! j)))"
      by (auto simp: Bex_def outcomes_set)
    finally show ?thesis .
  qed
  have first: "\<exists>template_infos labels.
      extract_templates rxns args extractor = Inr (template_infos, labels) \<and>
      length labels = length rxns \<and>
      (\<forall>i<length rxns. labels ! i = label_of (template_of args extractor i (rxns ! i))) \<and>
      (\<forall>k. k \<in> set (map Template template_infos) \<longleftrightarrow>
           (\<exists>i<length rxns. produces k (template_of args extractor i (rxns ! i))))"
  proof (intro exI conjI allI impI)
    show "extract_templates rxns args extractor = Inr (rows, template_labels st')" by (rule res)
    show "length (template_labels st') = length rxns" by (rule len)
    show "template_labels st' ! j = label_of (template_of args extractor j (rxns ! j))"
      if "j < length rxns" for j using that by (rule nth)
    show "k \<in> set (map Template rows) \<longleftrightarrow>
      (\<exists>j<length rxns. produces k (template_of args extractor j (rxns ! j)))" for k
      by (rule keys)
  qed
  have second: "\<forall>t. template_of args extractor i reaction = Inr t \<longrightarrow> label t \<noteq> ''NaN''"
    using template_of_label_not_NaN by blast
  have third: "\<forall>e. template_of args extractor i reaction = Inl e \<longrightarrow>
        scan_step args extractor i reaction st
          = st \<lparr> template_labels := template_labels st @ [''NaN''] \<rparr>"
    using scan_step_failure by blast
  have fourth: "\<not> contains ''>>'' reaction \<longrightarrow> template_of args extractor i reaction = Inl IndexError"
    using template_of_no_separator by blast
  have fifth: "split ''>>'' reaction = r # p # rest \<longrightarrow>
      (\<forall>e. extractor (r, p, i) = Inl e \<longrightarrow> template_of args extractor i reaction = Inl e) \<and>
      (\<forall>result. extractor (r, p, i) = Inr result \<longrightarrow>
         \<not> has_reactants result \<or> reaction_smarts result = None \<longrightarrow>
         template_of args extractor i reaction = Inl TemplateProblem)"
    using template_of_extractor_raises template_of_missing_keys by blast
  from first second third fourth fifth show ?thesis by (intro conjI)
qed

theorem extract_templates_one_label_per_record_witness:
  "\<exists>template_infos labels.
     extract_templates [''A>>P'', ''bad'', ''A>>X'', ''A>>Y'', ''B>>P'']
       \<lparr>use_stereo = False, retro = False\<rparr> sample_extractor = Inr (template_infos, labels) \<and>
     length labels = 5 \<and>
     labels ! 0 = ''P_01_00'' \<and> labels ! 1 = ''NaN'' \<and> labels ! 2 = ''NaN'' \<and>
     labels ! 3 = ''NaN'' \<and> labels ! 4 = ''P_01_00'' \<and>
     set (map Template template_infos) = {''P_01_00''}"
proof -
  let ?rxns = "[''A>>P'', ''bad'', ''A>>X'', ''A>>Y'', ''B>>P'']"
  let ?a = "\<lparr>use_stereo = False, retro = False\<rparr>"
  have ev: "label_of (template_of ?a sample_extractor 0 ''A>>P'') = ''P_01_00''"
    "label_of (template_of ?a sample_extractor 1 ''bad'') = ''NaN''"
    "label_of (template_of ?a sample_extractor 2 ''A>>X'') = ''NaN''"
    "label_of (template_of ?a sample_extractor 3 ''A>>Y'') = ''NaN''"
    "label_of (template_of ?a sample_extractor 4 ''B>>P'') = ''P_01_00''"
    by (simp_all add: extraction_eval label_of_def)
  have pr: "produces k (template_of ?a sample_extractor 0 ''A>>P'') \<longleftrightarrow> k = ''P_01_00''"
    "\<not> produces k (template_of ?a sample_extractor 1 ''bad'')"
    "\<not> produces k (template_of ?a sample_extractor 2 ''A>>X'')"
    "\<not> produces k (template_of ?a sample_extractor 3 ''A>>Y'')"
    "produces k (template_of ?a sample_extractor 4 ''B>>P'') \<longleftrightarrow> k = ''P_01_00''" for k
    by (auto simp: extraction_eval produces_def)
  from extract_templates_one_label_per_record [of ?rxns ?a sample_extractor]
  obtain infos labels where
    res: "extract_templates ?rxns ?a sample_extractor = Inr (infos, labels)"
    and len: "length labels = length ?rxns"
    and nth: "\<forall>i<length ?rxns. labels ! i = label_of (template_of ?a sample_extractor i (?rxns ! i))"
    and keys: "\<forall>k. k \<in> set (map Template infos) \<longleftrightarrow>
           (\<exists>i<length ?rxns. produces k (template_of ?a sample_extractor i (?rxns ! i)))"
    by blast
  from nth ev have l: "labels ! 0 = ''P_01_00''" "labels ! 1 = ''NaN''" "labels ! 2 = ''NaN''"
    "labels ! 3 = ''NaN''" "labels ! 4 = ''P_01_00''"
    by simp_all
  have "k \<in> set (map Template infos) \<longleftrightarrow> k = ''P_01_00''" for k
  proof
    assume "k \<in> set (map Template infos)"
    with keys obtain i where i: "i < length ?rxns"
      "produces k (template_of ?a sample_extractor i (?rxns ! i))" by blast
    from i(1) have "i = 0 \<or> i = 1 \<or> i = 2 \<or> i = 3 \<or> i = 4" by auto
    with i(2) pr [of k] show "k = ''P_01_00''" by auto
  next
    assume "k = ''P_01_00''"
    with pr(1) [of k] have "produces k (template_of ?a sample_extractor 0 (?rxns ! 0))" by simp
    moreover have "0 < length ?rxns" by simp
    ultimately show "k \<in> set (map Template infos)" using keys by blast
  qed
  then have "set (map Template infos) = {''P_01_00''}" by blast
  with res len l show ?thesis by simp
qed

subsection \<open>First occurrence wins\<close>

lemma list_all2_right:
  "list_all2 P xs ys \<Longrightarrow> y \<in> set ys \<Longrightarrow> \<exists>x \<in> set xs. P x y"
  by (induction rule: list_all2_induct) auto

lemma register_known_frame:
  assumes "label t \<in> fst ` set (TemplateHs st)"
  shows "TemplateEdits (register t st) = TemplateEdits st \<and>
         TemplateHs (register t st) = TemplateHs st \<and>
         TemplateCs (register t st) = TemplateCs st \<and>
         TemplateSs (register t st) = TemplateSs st \<and>
         count_of (TemplateFreq (register t st)) (label t)
           = count_of (TemplateFreq st) (label t) + 1"
  unfolding register_known [OF assms] by (simp add: count_of_dict_incr)

lemma first_producer:
  assumes "find (produces k) (outcomes args ex 0 rxns) = Some (Inr t)"
  shows "\<exists>i<length rxns. template_of args ex i (rxns ! i) = Inr t \<and> label t = k \<and>
           (\<forall>j<i. \<not> produces k (template_of args ex j (rxns ! j)))"
proof -
  let ?os = "outcomes args ex 0 rxns"
  from assms obtain i where i: "i < length ?os" "produces k (?os ! i)" "Inr t = ?os ! i"
    "\<forall>j<i. \<not> produces k (?os ! j)"
    unfolding find_Some_iff by blast
  from i(1) have il: "i < length rxns" by (simp add: outcomes_length)
  with i(3) have t: "template_of args ex i (rxns ! i) = Inr t"
    using outcomes_nth [of i rxns args ex 0] by simp
  with i(2) have "label t = k"
    using outcomes_nth [of i rxns args ex 0] il by (simp add: produces_def)
  moreover have "\<not> produces k (template_of args ex j (rxns ! j))" if "j < i" for j
  proof -
    from that il have "?os ! j = template_of args ex j (rxns ! j)"
      using outcomes_nth [of j rxns args ex 0] by simp
    moreover from that i(4) have "\<not> produces k (?os ! j)" by blast
    ultimately show ?thesis by simp
  qed
  ultimately show ?thesis using il t by blast
qed

text \<open>
  Claim C4. The table has one row for each label. For every row there is a record that
  produced the row's label and before which no record produced it; the row's edit sites
  and its hydrogen, charge and chirality changes are those of that first record, and its
  \<^verbatim>\<open>Frequency\<close> is the number of records that produced the label. A record whose
  label is already a key leaves the stored edit sites and changes as they are and adds
  one to the label's frequency.
\<close>

theorem extract_templates_first_occurrence:
  "(\<exists>template_infos labels.
      extract_templates rxns args extractor = Inr (template_infos, labels) \<and>
      distinct (map Template template_infos) \<and>
      (\<forall>row \<in> set template_infos.
         \<exists>i t. i < length rxns \<and>
           template_of args extractor i (rxns ! i) = Inr t \<and> label t = Template row \<and>
           (\<forall>j<i. \<not> produces (Template row) (template_of args extractor j (rxns ! j))) \<and>
           edit_site row = edit_sites t \<and>
           change_H row = found_H t \<and> change_C row = found_C t \<and> change_S row = found_S t \<and>
           Frequency row
             = length (filter (produces (Template row)) (outcomes args extractor 0 rxns)))) \<and>
   (label t' \<in> fst ` set (TemplateHs st) \<longrightarrow>
      TemplateEdits (register t' st) = TemplateEdits st \<and>
      TemplateHs (register t' st) = TemplateHs st \<and>
      TemplateCs (register t' st) = TemplateCs st \<and>
      TemplateSs (register t' st) = TemplateSs st \<and>
      count_of (TemplateFreq (register t' st)) (label t')
        = count_of (TemplateFreq st) (label t') + 1)"
proof -
  define st' where "st' = scan args extractor 0 rxns empty_registry"
  let ?os = "outcomes args extractor 0 rxns"
  have inv: "registry_inv st' ?os" unfolding st'_def by (rule final_registry)
  then have ik: "inv_keys st' ?os"
    and ie: "\<And>k. k \<in> fst ` set (TemplateHs st') \<Longrightarrow> inv_entry st' ?os k"
    by (auto simp: registry_inv_def)
  from extract_templates_rows [of rxns args extractor] obtain rows where
    res: "extract_templates rxns args extractor = Inr (rows, template_labels st')"
    and rows: "list_all2 (\<lambda>k row. template_row st' k = Inr row) (map fst (TemplateHs st')) rows"
    by (auto simp: st'_def)
  from ik rows_templates(1) [OF rows] have dist: "distinct (map Template rows)"
    by (simp add: inv_keys_def)
  have entry: "\<exists>i t. i < length rxns \<and>
           template_of args extractor i (rxns ! i) = Inr t \<and> label t = Template row \<and>
           (\<forall>j<i. \<not> produces (Template row) (template_of args extractor j (rxns ! j))) \<and>
           edit_site row = edit_sites t \<and>
           change_H row = found_H t \<and> change_C row = found_C t \<and> change_S row = found_S t \<and>
           Frequency row = length (filter (produces (Template row)) ?os)"
    if "row \<in> set rows" for row
  proof -
    from list_all2_right [OF rows that] obtain k where
      k: "k \<in> set (map fst (TemplateHs st'))" "template_row st' k = Inr row"
      by blast
    then have kin: "k \<in> fst ` set (TemplateHs st')" by simp
    from template_row_key [OF ik kin] k(2) have row:
      "Template row = k" "Frequency row = count_of (TemplateFreq st') k"
      "map_of (TemplateEdits st') k = Some (edit_site row)"
      "map_of (TemplateHs st') k = Some (change_H row)"
      "map_of (TemplateCs st') k = Some (change_C row)"
      "map_of (TemplateSs st') k = Some (change_S row)"
      by auto
    from ie [OF kin] obtain t where
      c: "count_of (TemplateFreq st') k = length (filter (produces k) ?os)"
      and f: "find (produces k) ?os = Some (Inr t)"
      and m: "map_of (TemplateEdits st') k = Some (edit_sites t)"
        "map_of (TemplateHs st') k = Some (found_H t)"
        "map_of (TemplateCs st') k = Some (found_C t)"
        "map_of (TemplateSs st') k = Some (found_S t)"
      by (auto simp: inv_entry_def)
    from first_producer [OF f] obtain i where
      i: "i < length rxns" "template_of args extractor i (rxns ! i) = Inr t" "label t = k"
      "\<forall>j<i. \<not> produces k (template_of args extractor j (rxns ! j))"
      by blast
    from row m have "edit_site row = edit_sites t" "change_H row = found_H t"
      "change_C row = found_C t" "change_S row = found_S t"
      by simp_all
    with i c row(1,2) show ?thesis by auto
  qed
  have first: "\<exists>template_infos labels.
      extract_templates rxns args extractor = Inr (template_infos, labels) \<and>
      distinct (map Template template_infos) \<and>
      (\<forall>row \<in> set template_infos.
         \<exists>i t. i < length rxns \<and>
           template_of args extractor i (rxns ! i) = Inr t \<and> label t = Template row \<and>
           (\<forall>j<i. \<not> produces (Template row) (template_of args extractor j (rxns ! j))) \<and>
           edit_site row = edit_sites t \<and>
           change_H row = found_H t \<and> change_C row = found_C t \<and> change_S row = found_S t \<and>
           Frequency row = length (filter (produces (Template row)) ?os))"
  proof -
    have "extract_templates rxns args extractor = Inr (rows, template_labels st') \<and>
      distinct (map Template rows) \<and>
      (\<forall>row \<in> set rows.
         \<exists>i t. i < length rxns \<and>
           template_of args extractor i (rxns ! i) = Inr t \<and> label t = Template row \<and>
           (\<forall>j<i. \<not> produces (Template row) (template_of args extractor j (rxns ! j))) \<and>
           edit_site row = edit_sites t \<and>
           change_H row = found_H t \<and> change_C row = found_C t \<and> change_S row = found_S t \<and>
           Frequency row = length (filter (produces (Template row)) ?os))"
      using res dist entry by (intro conjI ballI)
    then show ?thesis by (intro exI)
  qed
  have second: "label t' \<in> fst ` set (TemplateHs st) \<longrightarrow>
      TemplateEdits (register t' st) = TemplateEdits st \<and>
      TemplateHs (register t' st) = TemplateHs st \<and>
      TemplateCs (register t' st) = TemplateCs st \<and>
      TemplateSs (register t' st) = TemplateSs st \<and>
      count_of (TemplateFreq (register t' st)) (label t')
        = count_of (TemplateFreq st) (label t') + 1"
    using register_known_frame [of t' st] by blast
  from first second show ?thesis by (intro conjI)
qed

theorem extract_templates_first_occurrence_witness:
  "\<exists>row.
     extract_templates [''A>>P'', ''B>>P''] \<lparr>use_stereo = False, retro = False\<rparr> sample_extractor
       = Inr ([row], [''P_01_00'', ''P_01_00'']) \<and>
     Template row = ''P_01_00'' \<and> Frequency row = 2 \<and>
     edit_site row = [(''A'', [0, 1]), (''B'', [])] \<and>
     (\<exists>t. template_of \<lparr>use_stereo = False, retro = False\<rparr> sample_extractor 0 ''A>>P'' = Inr t \<and>
          label t = Template row \<and> edit_sites t = edit_site row \<and> found_H t = change_H row) \<and>
     (\<exists>t. template_of \<lparr>use_stereo = False, retro = False\<rparr> sample_extractor 1 ''B>>P'' = Inr t \<and>
          label t = Template row \<and> edit_sites t \<noteq> edit_site row)"
proof -
  let ?rxns = "[''A>>P'', ''B>>P'']"
  let ?a = "\<lparr>use_stereo = False, retro = False\<rparr>"
  define row0 :: "nat template_info" where
    "row0 = \<lparr>Template = ''P_01_00'', edit_site = [(''A'', [0, 1]), (''B'', [])],
          change_H = [(1, 0), (2, 1)], change_C = [(1, 0), (2, 0)],
          change_S = [], Frequency = 2\<rparr>"
  have ev: "extract_templates ?rxns ?a sample_extractor = Inr ([row0], [''P_01_00'', ''P_01_00''])"
    by (simp add: extraction_eval row0_def)
  have p0: "produces ''P_01_00'' (template_of ?a sample_extractor 0 ''A>>P'')"
    by (simp add: extraction_eval produces_def)
  have second: "\<exists>t. template_of ?a sample_extractor 1 ''B>>P'' = Inr t \<and>
      label t = Template row0 \<and> edit_sites t \<noteq> edit_site row0"
    by (simp add: extraction_eval row0_def)
  from extract_templates_first_occurrence [of ?rxns ?a sample_extractor] ev
  have "\<forall>row \<in> set [row0].
         \<exists>i t. i < length ?rxns \<and>
           template_of ?a sample_extractor i (?rxns ! i) = Inr t \<and> label t = Template row \<and>
           (\<forall>j<i. \<not> produces (Template row) (template_of ?a sample_extractor j (?rxns ! j))) \<and>
           edit_site row = edit_sites t \<and>
           change_H row = found_H t \<and> change_C row = found_C t \<and> change_S row = found_S t \<and>
           Frequency row
             = length (filter (produces (Template row)) (outcomes ?a sample_extractor 0 ?rxns))"
    by auto
  then obtain i t where it: "i < length ?rxns"
    "template_of ?a sample_extractor i (?rxns ! i) = Inr t" "label t = Template row0"
    "\<forall>j<i. \<not> produces (Template row0) (template_of ?a sample_extractor j (?rxns ! j))"
    "edit_site row0 = edit_sites t" "change_H row0 = found_H t"
    by auto
  have "i = 0"
  proof (rule ccontr)
    assume "i \<noteq> 0"
    then have "0 < i" by simp
    with it(4) have "\<not> produces (Template row0) (template_of ?a sample_extractor 0 (?rxns ! 0))"
      by blast
    with p0 show False by (simp add: row0_def)
  qed
  with it have first: "\<exists>t. template_of ?a sample_extractor 0 ''A>>P'' = Inr t \<and>
      label t = Template row0 \<and> edit_sites t = edit_site row0 \<and> found_H t = change_H row0"
    by auto
  have "Template row0 = ''P_01_00''" "Frequency row0 = 2"
    "edit_site row0 = [(''A'', [0, 1]), (''B'', [])]"
    by (simp_all add: row0_def)
  with ev first second show ?thesis by blast
qed

subsection \<open>The label's fields\<close>

text \<open>
  \<open>site_values d vs\<close>: the dictionary \<open>d\<close> has the sites \<open>1\<close> to \<open>len(d)\<close> among its
  keys, and \<open>vs\<close> lists their codes in this order.
\<close>

definition site_values :: "change \<Rightarrow> int list \<Rightarrow> bool" where
  "site_values d vs \<longleftrightarrow>
     length vs = dict_len d \<and> (\<forall>k<dict_len d. map_of d (int k + 1) = Some (vs ! k))"

lemma collect_Inr_iff:
  "collect f xs = Inr ys \<longleftrightarrow>
     length ys = length xs \<and> (\<forall>k<length xs. f (xs ! k) = Inr (ys ! k))"
proof (induction xs arbitrary: ys)
  case Nil
  then show ?case by auto
next
  case (Cons x xs)
  show ?case
  proof (cases ys)
    case Nil
    then show ?thesis by (auto split: sum.splits)
  next
    case (Cons y ys')
    have "(\<forall>k<Suc (length xs). f ((x # xs) ! k) = Inr ((y # ys') ! k))
        \<longleftrightarrow> f x = Inr y \<and> (\<forall>k<length xs. f (xs ! k) = Inr (ys' ! k))"
      by (auto simp: less_Suc_eq_0_disj)
    with Cons Cons.IH [of ys'] show ?thesis by (auto split: sum.splits)
  qed
qed

lemma getitem_Inr: "getitem d k = Inr v \<longleftrightarrow> map_of d k = Some v"
  by (simp add: getitem_def split: option.splits)

lemma collect_sites:
  "collect (\<lambda>k. getitem d (int k + 1)) [0..<dict_len d] = Inr vs \<longleftrightarrow> site_values d vs"
  unfolding collect_Inr_iff site_values_def by (simp add: getitem_Inr)

lemma change_code_Inr:
  "change_code d = Inr code \<longleftrightarrow> (\<exists>vs. site_values d vs \<and> code = concat (map str_int vs))"
proof (cases "collect (\<lambda>k. getitem d (int k + 1)) [0..<dict_len d]")
  case (Inl e)
  have "\<not> site_values d vs" for vs
  proof
    assume "site_values d vs"
    then have "collect (\<lambda>k. getitem d (int k + 1)) [0..<dict_len d] = Inr vs"
      by (rule collect_sites [THEN iffD2])
    with Inl show False by simp
  qed
  moreover from Inl have "change_code d = Inl e" by (simp add: change_code_def)
  ultimately show ?thesis by simp
next
  case (Inr ws)
  then have ws: "site_values d ws" by (rule collect_sites [THEN iffD1])
  have same: "vs = ws" if "site_values d vs" for vs
  proof -
    from that have "collect (\<lambda>k. getitem d (int k + 1)) [0..<dict_len d] = Inr vs"
      by (rule collect_sites [THEN iffD2])
    with Inr show ?thesis by simp
  qed
  from Inr have cc: "change_code d = Inr (concat (map str_int ws))"
    by (simp add: change_code_def join_Nil)
  show ?thesis
  proof
    assume "change_code d = Inr code"
    with cc have "code = concat (map str_int ws)" by simp
    with ws show "\<exists>vs. site_values d vs \<and> code = concat (map str_int vs)" by blast
  next
    assume "\<exists>vs. site_values d vs \<and> code = concat (map str_int vs)"
    then obtain vs where "site_values d vs" "code = concat (map str_int vs)" by blast
    with same [of vs] cc show "change_code d = Inr code" by simp
  qed
qed

lemma concat_str_int_Nil: "concat (map str_int vs) = [] \<longleftrightarrow> vs = []"
  by (cases vs) (simp_all add: str_int_not_Nil)

lemma site_values_Nil: "site_values [] vs \<longleftrightarrow> vs = []"
  by (simp add: site_values_def dict_len_def)

lemma dict_len_0: "dict_len d = 0 \<longleftrightarrow> d = []"
  by (simp add: dict_len_def)

lemma site_values_sites: "site_values d vs \<Longrightarrow> vs = [] \<longleftrightarrow> d = []"
  using dict_len_0 [of d] by (auto simp: site_values_def)

lemma concat_digits:
  "\<forall>v \<in> set vs. 0 \<le> v \<and> v < 10 \<Longrightarrow> length (concat (map str_int vs)) = length vs"
  by (induction vs) (simp_all add: str_int_digit)

lemma get_full_template_fields:
  assumes "get_full_template template H C S = Inr l"
  shows "\<exists>hs cs ss. site_values H hs \<and> site_values C cs \<and> site_values S ss \<and>
           l = join ''_'' ([template, concat (map str_int hs), concat (map str_int cs)]
                 @ (if ss = [] then [] else [concat (map str_int ss)]))"
proof -
  from assms obtain hc cc sc where c: "change_code H = Inr hc" "change_code C = Inr cc"
    "change_code S = Inr sc"
    and l: "l = (if sc = [] then join ''_'' [template, hc, cc] else join ''_'' [template, hc, cc, sc])"
    by (auto simp: get_full_template_def split: sum.splits if_splits)
  from c obtain hs cs ss where v: "site_values H hs" "hc = concat (map str_int hs)"
    "site_values C cs" "cc = concat (map str_int cs)"
    "site_values S ss" "sc = concat (map str_int ss)"
    unfolding change_code_Inr by blast
  have "sc = [] \<longleftrightarrow> ss = []" unfolding v(6) by (rule concat_str_int_Nil)
  with l have "l = join ''_'' ([template, hc, cc] @ (if ss = [] then [] else [sc]))"
    by simp
  then have "l = join ''_'' ([template, concat (map str_int hs), concat (map str_int cs)]
                 @ (if ss = [] then [] else [concat (map str_int ss)]))"
    unfolding v(2,4,6) .
  with v(1,3,5) show ?thesis by blast
qed

text \<open>
  Claim C10, as the code has it. For a record whose extraction succeeds, with the
  extractor's result: the label joins with \<^verbatim>\<open>_\<close> the result's pattern, the
  concatenated decimal codes of the hydrogen-change sites and those of the charge-change
  sites, and then the concatenated codes of the chirality sites if there is at least
  one. The chirality dictionary read is the result's when stereo use is enabled and the
  empty one when it is disabled. So the label has three fields when stereo use is
  disabled, and with stereo use enabled it has four fields exactly when the result's
  \<^verbatim>\<open>Chiral_change\<close> has a site, and three when it is empty. Codes from 0 to 9 take
  one character each.
\<close>

theorem template_label_fields:
  assumes "template_of args extractor i reaction = Inr t"
  shows "\<exists>result template hs cs ss.
           get_reaction_template extractor reaction i = Inr result \<and>
           reaction_smarts result = Some template \<and>
           H_change result = Some (found_H t) \<and> site_values (found_H t) hs \<and>
           Charge_change result = Some (found_C t) \<and> site_values (found_C t) cs \<and>
           (if use_stereo args then Chiral_change result = Some (found_S t) else found_S t = []) \<and>
           site_values (found_S t) ss \<and>
           label t = join ''_'' ([template, concat (map str_int hs), concat (map str_int cs)]
                       @ (if found_S t = [] then [] else [concat (map str_int ss)])) \<and>
           ((\<forall>v \<in> set hs. 0 \<le> v \<and> v < 10) \<longrightarrow> length (concat (map str_int hs)) = length hs) \<and>
           ((\<forall>v \<in> set cs. 0 \<le> v \<and> v < 10) \<longrightarrow> length (concat (map str_int cs)) = length cs)"
proof -
  from assms obtain result template S where
    r: "get_reaction_template extractor reaction i = Inr result"
      "reaction_smarts result = Some template"
      "H_change result = Some (found_H t)" "Charge_change result = Some (found_C t)"
      "if use_stereo args then Chiral_change result = Some S else S = []"
      "found_S t = S"
      "get_full_template template (found_H t) (found_C t) S = Inr (label t)"
    by (auto simp: template_of_def split: sum.splits if_splits option.splits)
  from get_full_template_fields [OF r(7)] obtain hs cs ss where
    v: "site_values (found_H t) hs" "site_values (found_C t) cs" "site_values S ss"
    "label t = join ''_'' ([template, concat (map str_int hs), concat (map str_int cs)]
                 @ (if ss = [] then [] else [concat (map str_int ss)]))"
    by blast
  from site_values_sites [OF v(3)] r(6) have e: "ss = [] \<longleftrightarrow> found_S t = []" by simp
  have "label t = join ''_'' ([template, concat (map str_int hs), concat (map str_int cs)]
                 @ (if found_S t = [] then [] else [concat (map str_int ss)]))"
    using v(4) e by simp
  moreover have "if use_stereo args then Chiral_change result = Some (found_S t) else found_S t = []"
    using r(5,6) by (simp split: if_splits)
  moreover have "site_values (found_S t) ss" using v(3) r(6) by simp
  ultimately show ?thesis
    using r(1-4) v(1,2) concat_digits [of hs] concat_digits [of cs] by blast
qed

theorem template_label_fields_witness:
  "\<exists>t template hs cs ss.
     template_of \<lparr>use_stereo = True, retro = True\<rparr> sample_extractor 0 ''S>>P'' = Inr t \<and>
     site_values (found_H t) hs \<and> site_values (found_C t) cs \<and> site_values (found_S t) ss \<and>
     found_S t = [(1, 0), (2, 2)] \<and>
     label t = join ''_'' [template, concat (map str_int hs), concat (map str_int cs),
                           concat (map str_int ss)] \<and>
     label t = ''P_01_00_02''"
proof -
  let ?a = "\<lparr>use_stereo = True, retro = True\<rparr>"
  define t :: "nat found" where
    "t = \<lparr>label = ''P_01_00_02'',
          found_edits = [(''A'', ([0], [], [0, 1])), (''B'', ([], [], []))],
          found_H = [(1, 0), (2, 1)], found_C = [(1, 0), (2, 0)], found_S = [(1, 0), (2, 2)]\<rparr>"
  have ev: "template_of ?a sample_extractor 0 ''S>>P'' = Inr t"
    by (simp add: extraction_eval t_def)
  from template_label_fields [OF ev] obtain template hs cs ss where
    "site_values (found_H t) hs" "site_values (found_C t) cs" "site_values (found_S t) ss"
    "label t = join ''_'' ([template, concat (map str_int hs), concat (map str_int cs)]
                       @ (if found_S t = [] then [] else [concat (map str_int ss)]))"
    by blast
  moreover have "found_S t = [(1, 0), (2, 2)]" "label t = ''P_01_00_02''"
    by (simp_all add: t_def)
  ultimately show ?thesis using ev by auto
qed

text \<open>
  The claim as stated fails: with stereo use enabled and a result whose
  \<^verbatim>\<open>Chiral_change\<close> is empty, the label has three fields.
\<close>

theorem stereo_enabled_three_fields:
  "use_stereo \<lparr>use_stereo = True, retro = True\<rparr> \<and>
   get_reaction_template sample_extractor ''A>>P'' 0
     = Inr \<lparr>has_reactants = True, reaction_smarts = Some ''P'',
            edits = Some [(''A'', ([0], [], [0, 1])), (''B'', ([], [], []))],
            H_change = Some [(1, 0), (2, 1)], Charge_change = Some [(1, 0), (2, 0)],
            Chiral_change = Some []\<rparr> \<and>
   label_of (template_of \<lparr>use_stereo = True, retro = True\<rparr> sample_extractor 0 ''A>>P'')
     = join ''_'' [''P'', ''01'', ''00'']"
  by (simp add: extraction_eval label_of_def)

section \<open>Idempotence of remove_reagents\<close>

text \<open>The map numbers a molecule's atoms carry.\<close>

definition map_numbers :: "'mol chem \<Rightarrow> 'mol \<Rightarrow> string set" where
  "map_numbers ch m = set (List.map_filter (AtomMapProp ch m) [0..<NumAtoms ch m])"

text \<open>
  The molecule \<^verbatim>\<open>remove_reagents\<close> serialises for a parsed reactant compound, and
  whether the compound is used.
\<close>

definition cleaned :: "'mol chem \<Rightarrow> string set \<Rightarrow> 'mol \<Rightarrow> 'mol \<times> bool" where
  "cleaned ch product_maps mol = atoms_loop ch product_maps [0..<NumAtoms ch mol] mol False"

text \<open>
  A molecule is canonically stable when its serialisation is one compound (no dot, no
  role separator) and parsing the serialisation gives a molecule with the same
  serialisation and the same map numbers.
\<close>

definition canonical_stable :: "'mol chem \<Rightarrow> 'mol \<Rightarrow> bool" where
  "canonical_stable ch m \<longleftrightarrow>
     CHR ''.'' \<notin> set (MolToSmiles ch m) \<and> CHR ''>'' \<notin> set (MolToSmiles ch m) \<and>
     (\<exists>m'. MolFromSmiles ch (MolToSmiles ch m) = Some m' \<and>
           MolToSmiles ch m' = MolToSmiles ch m \<and>
           map_numbers ch m' = map_numbers ch m)"

lemma set_map_filter: "set (List.map_filter f xs) = {y. \<exists>x \<in> set xs. f x = Some y}"
  by (induction xs) (auto simp: List.map_filter_simps split: option.splits)

lemma map_numbers_iff:
  "n \<in> map_numbers ch m \<longleftrightarrow> (\<exists>i<NumAtoms ch m. AtomMapProp ch m i = Some n)"
  by (auto simp: map_numbers_def set_map_filter)

lemma atoms_loop_keep:
  assumes "\<forall>i \<in> set is. \<forall>n. AtomMapProp ch m i = Some n \<longrightarrow> n \<in> maps"
  shows "atoms_loop ch maps is m u = (m, u \<or> (\<exists>i \<in> set is. AtomMapProp ch m i \<noteq> None))"
  using assms
proof (induction "is" arbitrary: u)
  case Nil
  then show ?case by simp
next
  case (Cons a as)
  show ?case
  proof (cases "AtomMapProp ch m a")
    case None
    with Cons show ?thesis by simp
  next
    case (Some n)
    with Cons.prems have "n \<in> maps" by simp
    with Some Cons show ?thesis by simp
  qed
qed

lemma atoms_loop_clear:
  assumes clear: "\<forall>m i j. AtomMapProp ch (ClearAtomMap ch m i) j
                    = (if j = i then None else AtomMapProp ch m j)"
    and atoms: "\<forall>m i. NumAtoms ch (ClearAtomMap ch m i) = NumAtoms ch m"
    and "distinct is"
  shows "\<exists>m'. atoms_loop ch maps is m u
           = (m', u \<or> (\<exists>i \<in> set is. \<exists>n. AtomMapProp ch m i = Some n \<and> n \<in> maps)) \<and>
         NumAtoms ch m' = NumAtoms ch m \<and>
         (\<forall>j. AtomMapProp ch m' j
              = (if j \<in> set is \<and> (\<exists>n. AtomMapProp ch m j = Some n \<and> n \<notin> maps) then None
                 else AtomMapProp ch m j))"
  using assms(3)
proof (induction "is" arbitrary: m u)
  case Nil
  then show ?case by simp
next
  case (Cons a as)
  then have d: "distinct as" and na: "a \<notin> set as" by simp_all
  show ?case
  proof (cases "AtomMapProp ch m a")
    case None
    from Cons.IH [OF d, of m u] obtain m' where
      "atoms_loop ch maps as m u
         = (m', u \<or> (\<exists>i \<in> set as. \<exists>n. AtomMapProp ch m i = Some n \<and> n \<in> maps))"
      "NumAtoms ch m' = NumAtoms ch m"
      "\<forall>j. AtomMapProp ch m' j
          = (if j \<in> set as \<and> (\<exists>n. AtomMapProp ch m j = Some n \<and> n \<notin> maps) then None
             else AtomMapProp ch m j)"
      by blast
    with None show ?thesis by auto
  next
    case (Some n)
    show ?thesis
    proof (cases "n \<in> maps")
      case True
      from Cons.IH [OF d, of m True] obtain m' where
        "atoms_loop ch maps as m True = (m', True)"
        "NumAtoms ch m' = NumAtoms ch m"
        "\<forall>j. AtomMapProp ch m' j
            = (if j \<in> set as \<and> (\<exists>n. AtomMapProp ch m j = Some n \<and> n \<notin> maps) then None
               else AtomMapProp ch m j)"
        by auto
      with Some True show ?thesis by auto
    next
      case False
      let ?m = "ClearAtomMap ch m a"
      have pm: "AtomMapProp ch ?m j = (if j = a then None else AtomMapProp ch m j)" for j
        using clear by simp
      from Cons.IH [OF d, of ?m u] obtain m' where
        l: "atoms_loop ch maps as ?m u
           = (m', u \<or> (\<exists>i \<in> set as. \<exists>n. AtomMapProp ch ?m i = Some n \<and> n \<in> maps))"
        and n: "NumAtoms ch m' = NumAtoms ch ?m"
        and p: "\<forall>j. AtomMapProp ch m' j
            = (if j \<in> set as \<and> (\<exists>n. AtomMapProp ch ?m j = Some n \<and> n \<notin> maps) then None
               else AtomMapProp ch ?m j)"
        by blast
      have u: "(\<exists>i \<in> set as. \<exists>n. AtomMapProp ch ?m i = Some n \<and> n \<in> maps)
          \<longleftrightarrow> (\<exists>i \<in> set (a # as). \<exists>n. AtomMapProp ch m i = Some n \<and> n \<in> maps)"
        using na Some False by (auto simp: pm)
      have p': "AtomMapProp ch m' j
            = (if j \<in> set (a # as) \<and> (\<exists>n. AtomMapProp ch m j = Some n \<and> n \<notin> maps) then None
               else AtomMapProp ch m j)" for j
        using p na Some False by (auto simp: pm)
      from Some False have "atoms_loop ch maps (a # as) m u = atoms_loop ch maps as ?m u"
        by simp
      with l u n atoms p' show ?thesis by auto
    qed
  qed
qed

lemma cleaned_numbers:
  assumes clear: "\<forall>m i j. AtomMapProp ch (ClearAtomMap ch m i) j
                    = (if j = i then None else AtomMapProp ch m j)"
    and atoms: "\<forall>m i. NumAtoms ch (ClearAtomMap ch m i) = NumAtoms ch m"
  shows "map_numbers ch (fst (cleaned ch maps m)) = map_numbers ch m \<inter> maps \<and>
         snd (cleaned ch maps m) = (map_numbers ch m \<inter> maps \<noteq> {})"
proof -
  from atoms_loop_clear [OF clear atoms, of "[0..<NumAtoms ch m]" maps m False]
  obtain m' where
    l: "cleaned ch maps m
        = (m', \<exists>i \<in> set [0..<NumAtoms ch m]. \<exists>n. AtomMapProp ch m i = Some n \<and> n \<in> maps)"
    and n: "NumAtoms ch m' = NumAtoms ch m"
    and p: "\<forall>j. AtomMapProp ch m' j
          = (if j \<in> set [0..<NumAtoms ch m] \<and> (\<exists>n. AtomMapProp ch m j = Some n \<and> n \<notin> maps)
             then None else AtomMapProp ch m j)"
    unfolding cleaned_def by auto
  have "x \<in> map_numbers ch m' \<longleftrightarrow> x \<in> map_numbers ch m \<inter> maps" for x
  proof
    assume "x \<in> map_numbers ch m'"
    then obtain i where i: "i < NumAtoms ch m" "AtomMapProp ch m' i = Some x"
      unfolding map_numbers_iff n by blast
    from p have "AtomMapProp ch m' i
          = (if i \<in> set [0..<NumAtoms ch m] \<and> (\<exists>n. AtomMapProp ch m i = Some n \<and> n \<notin> maps)
             then None else AtomMapProp ch m i)" by blast
    with i(2) have "AtomMapProp ch m i = Some x" "x \<in> maps"
      by (auto split: if_splits simp: i(1))
    with i(1) show "x \<in> map_numbers ch m \<inter> maps"
      unfolding Int_iff map_numbers_iff by blast
  next
    assume "x \<in> map_numbers ch m \<inter> maps"
    then obtain i where i: "i < NumAtoms ch m" "AtomMapProp ch m i = Some x" "x \<in> maps"
      unfolding Int_iff map_numbers_iff by blast
    from p have "AtomMapProp ch m' i
          = (if i \<in> set [0..<NumAtoms ch m] \<and> (\<exists>n. AtomMapProp ch m i = Some n \<and> n \<notin> maps)
             then None else AtomMapProp ch m i)" by blast
    with i have "AtomMapProp ch m' i = Some x" by simp
    with i(1) show "x \<in> map_numbers ch m'"
      unfolding map_numbers_iff n by blast
  qed
  then have "map_numbers ch m' = map_numbers ch m \<inter> maps" by blast
  moreover have "(\<exists>i \<in> set [0..<NumAtoms ch m]. \<exists>n. AtomMapProp ch m i = Some n \<and> n \<in> maps)
      \<longleftrightarrow> map_numbers ch m \<inter> maps \<noteq> {}"
  proof
    assume "\<exists>i \<in> set [0..<NumAtoms ch m]. \<exists>n. AtomMapProp ch m i = Some n \<and> n \<in> maps"
    then obtain i n where "i < NumAtoms ch m" "AtomMapProp ch m i = Some n" "n \<in> maps"
      by auto
    then have "n \<in> map_numbers ch m \<inter> maps" unfolding Int_iff map_numbers_iff by blast
    then show "map_numbers ch m \<inter> maps \<noteq> {}" by blast
  next
    assume "map_numbers ch m \<inter> maps \<noteq> {}"
    then obtain n where "n \<in> map_numbers ch m" "n \<in> maps" by blast
    then obtain i where "i < NumAtoms ch m" "AtomMapProp ch m i = Some n" "n \<in> maps"
      unfolding map_numbers_iff by blast
    then show "\<exists>i \<in> set [0..<NumAtoms ch m]. \<exists>n. AtomMapProp ch m i = Some n \<and> n \<in> maps"
      by auto
  qed
  ultimately show ?thesis using l by simp
qed

lemma keep_reactant_stable:
  assumes "canonical_stable ch m" "map_numbers ch m \<subseteq> maps" "map_numbers ch m \<noteq> {}"
  shows "keep_reactant ch maps (MolToSmiles ch m) = Some (MolToSmiles ch m)"
proof -
  from assms(1) obtain m' where m': "MolFromSmiles ch (MolToSmiles ch m) = Some m'"
    "MolToSmiles ch m' = MolToSmiles ch m" "map_numbers ch m' = map_numbers ch m"
    by (auto simp: canonical_stable_def)
  have all: "\<forall>i \<in> set [0..<NumAtoms ch m']. \<forall>n. AtomMapProp ch m' i = Some n \<longrightarrow> n \<in> maps"
    using assms(2) m'(3) by (auto simp: map_numbers_iff)
  from assms(3) m'(3) obtain n where "n \<in> map_numbers ch m'" by blast
  then have some: "\<exists>i \<in> set [0..<NumAtoms ch m']. AtomMapProp ch m' i \<noteq> None"
    by (auto simp: map_numbers_iff)
  from atoms_loop_keep [OF all, of False] some
  have "atoms_loop ch maps [0..<NumAtoms ch m'] m' False = (m', True)" by simp
  with m' show ?thesis by (simp add: keep_reactant_def)
qed

lemma keep_reactant_empty:
  assumes "\<forall>m. MolFromSmiles ch [] = Some m \<longrightarrow> map_numbers ch m = {}"
  shows "keep_reactant ch maps [] = None"
proof (cases "MolFromSmiles ch []")
  case None
  then show ?thesis by (simp add: keep_reactant_def)
next
  case (Some m)
  with assms have e: "map_numbers ch m = {}" by simp
  have none: "\<forall>i \<in> set [0..<NumAtoms ch m]. AtomMapProp ch m i = None"
  proof
    fix i assume "i \<in> set [0..<NumAtoms ch m]"
    then have il: "i < NumAtoms ch m" by simp
    show "AtomMapProp ch m i = None"
    proof (cases "AtomMapProp ch m i")
      case None
      then show ?thesis .
    next
      case (Some n)
      with il have "n \<in> map_numbers ch m" unfolding map_numbers_iff by blast
      with e show ?thesis by simp
    qed
  qed
  then have "\<forall>i \<in> set [0..<NumAtoms ch m]. \<forall>n. AtomMapProp ch m i = Some n \<longrightarrow> n \<in> maps"
    by simp
  from atoms_loop_keep [OF this, of False] none
  have "atoms_loop ch maps [0..<NumAtoms ch m] m False = (m, False)" by simp
  with Some show ?thesis by (simp add: keep_reactant_def)
qed

lemma keep_reactant_again:
  assumes clear: "\<forall>m i j. AtomMapProp ch (ClearAtomMap ch m i) j
                    = (if j = i then None else AtomMapProp ch m j)"
    and atoms: "\<forall>m i. NumAtoms ch (ClearAtomMap ch m i) = NumAtoms ch m"
    and stable: "\<forall>m. MolFromSmiles ch s = Some m \<longrightarrow> snd (cleaned ch maps m) \<longrightarrow>
                   canonical_stable ch (fst (cleaned ch maps m))"
    and kept: "keep_reactant ch maps s = Some x"
  shows "keep_reactant ch maps x = Some x \<and> CHR ''.'' \<notin> set x \<and> CHR ''>'' \<notin> set x"
proof -
  from kept obtain m where m: "MolFromSmiles ch s = Some m" "snd (cleaned ch maps m)"
    "x = MolToSmiles ch (fst (cleaned ch maps m))"
    by (auto simp: keep_reactant_def cleaned_def split: option.splits prod.splits if_splits)
  let ?m = "fst (cleaned ch maps m)"
  from stable m have st: "canonical_stable ch ?m" by blast
  from cleaned_numbers [OF clear atoms, of maps m] m(2)
  have "map_numbers ch ?m \<subseteq> maps" "map_numbers ch ?m \<noteq> {}" by auto
  from keep_reactant_stable [OF st this] st m(3) show ?thesis
    by (simp add: canonical_stable_def)
qed

lemma map_filter_fixed:
  "\<forall>x \<in> set xs. f x = Some x \<Longrightarrow> List.map_filter f xs = xs"
  by (induction xs) (simp_all add: List.map_filter_simps)

lemma map_filter_kept:
  "x \<in> set (List.map_filter f xs) \<Longrightarrow> \<exists>s \<in> set xs. f s = Some x"
  by (auto simp: set_map_filter)

lemma join_free:
  "\<forall>x \<in> set xs. c \<notin> set x \<Longrightarrow> c \<notin> set sep \<Longrightarrow> c \<notin> set (join sep xs)"
  by (induction sep xs rule: join.induct) auto

lemma split_join:
  "xs \<noteq> [] \<Longrightarrow> \<forall>x \<in> set xs. c \<notin> set x \<Longrightarrow> split [c] (join [c] xs) = xs"
proof (induction "[c]" xs rule: join.induct)
  case 1
  then show ?case by simp
next
  case (2 x)
  then show ?case by (simp add: split_None find_sub_char_None)
next
  case (3 x y ys)
  then have x: "c \<notin> set x" and ih: "split [c] (join [c] (y # ys)) = y # ys" by simp_all
  from split_Some [OF find_sub_after_free [OF x, of "[]" "join [c] (y # ys)"]] ih
  show ?case by simp
qed

lemma split_single:
  assumes "split sep t = [p]" "sep \<noteq> []"
  shows "find_sub sep t = None \<and> p = t"
proof (cases "find_sub sep t")
  case None
  with assms show ?thesis by (simp add: split_None)
next
  case (Some j)
  from split_Some [OF Some assms(2)] assms(1) split_not_Nil [of sep "drop (j + length sep) t"]
  show ?thesis by simp
qed

text \<open>
  Claim C6. Let the structure adapter clear one atom's map number at a time without
  touching the other atoms, and let the empty string parse to a molecule without map
  numbers, or not at all. Let the reaction have exactly two segments, and let every
  reactant compound that is kept give, after its unused map numbers are cleared, a
  canonically stable molecule. Then \<^verbatim>\<open>remove_reagents\<close> returns a string, and on
  that string it returns the same string.
\<close>

theorem remove_reagents_idempotent:
  assumes clear: "\<forall>m i j. AtomMapProp ch (ClearAtomMap ch m i) j
                    = (if j = i then None else AtomMapProp ch m j)"
    and atoms: "\<forall>m i. NumAtoms ch (ClearAtomMap ch m i) = NumAtoms ch m"
    and empty: "\<forall>m. MolFromSmiles ch [] = Some m \<longrightarrow> map_numbers ch m = {}"
    and form: "split ''>>'' rxn = [r, p]"
    and stable: "\<forall>s \<in> set (split ''.'' r). \<forall>m. MolFromSmiles ch s = Some m \<longrightarrow>
                   snd (cleaned ch (set (findall_maps p)) m) \<longrightarrow>
                   canonical_stable ch (fst (cleaned ch (set (findall_maps p)) m))"
  shows "\<exists>out. remove_reagents ch rxn = Inr out \<and> remove_reagents ch out = Inr out"
proof -
  let ?maps = "set (findall_maps p)"
  define xs where "xs = List.map_filter (keep_reactant ch ?maps) (split ''.'' r)"
  define J where "J = join ''.'' xs"
  have first: "remove_reagents ch rxn = Inr (J @ ''>>'' @ p)"
    using form by (simp add: remove_reagents_def item_def xs_def J_def)
  have each: "keep_reactant ch ?maps x = Some x \<and> CHR ''.'' \<notin> set x \<and> CHR ''>'' \<notin> set x"
    if "x \<in> set xs" for x
  proof -
    from that obtain s where s: "s \<in> set (split ''.'' r)" "keep_reactant ch ?maps s = Some x"
      unfolding xs_def using map_filter_kept by fast
    from stable s(1) have "\<forall>m. MolFromSmiles ch s = Some m \<longrightarrow>
        snd (cleaned ch ?maps m) \<longrightarrow> canonical_stable ch (fst (cleaned ch ?maps m))"
      by blast
    from keep_reactant_again [OF clear atoms this s(2)] show ?thesis .
  qed
  then have nogt: "CHR ''>'' \<notin> set J"
    unfolding J_def by (intro join_free) auto
  from split_ConsD [OF form] obtain i where
    "split ''>>'' (drop (i + length ''>>'') rxn) = [p]" by blast
  from split_single [OF this] have pfree: "find_sub ''>>'' p = None" by simp
  have "split ''>>'' (J @ ''>>'' @ p) = J # split ''>>'' p"
    using split_Some [OF find_sub_after_free [OF nogt, of "''>''" p]] by simp
  with pfree have sp: "split ''>>'' (J @ ''>>'' @ p) = [J, p]"
    by (simp add: split_None)
  have again: "List.map_filter (keep_reactant ch ?maps) (split ''.'' J) = xs"
  proof (cases "xs = []")
    case True
    then have "J = []" by (simp add: J_def)
    then have "split ''.'' J = [[]]" by (simp add: split_None)
    with True keep_reactant_empty [OF empty, of ?maps] show ?thesis
      by (simp add: List.map_filter_simps)
  next
    case False
    with each have "split ''.'' J = xs"
      unfolding J_def by (intro split_join) auto
    with each show ?thesis by (simp add: map_filter_fixed)
  qed
  have "remove_reagents ch (J @ ''>>'' @ p) = Inr (J @ ''>>'' @ p)"
    using sp again by (simp add: remove_reagents_def item_def J_def)
  with first show ?thesis by blast
qed

lemma sample_chem_clear:
  "\<forall>m i j. AtomMapProp sample_chem (ClearAtomMap sample_chem m i) j
      = (if j = i then None else AtomMapProp sample_chem m j)"
  by (auto simp: sample_chem_def nth_list_update)

lemma sample_chem_atoms:
  "\<forall>m i. NumAtoms sample_chem (ClearAtomMap sample_chem m i) = NumAtoms sample_chem m"
  by (simp add: sample_chem_def)

lemma sample_chem_empty:
  "\<forall>m. MolFromSmiles sample_chem [] = Some m \<longrightarrow> map_numbers sample_chem m = {}"
  by (simp add: sample_chem_def map_numbers_def List.map_filter_simps)

theorem remove_reagents_idempotent_witness:
  "split ''>>'' ''[CH3:1][OH:2].[Na+].[Cl:3][H:4]>>[CH3:1][Cl:3]''
     = [''[CH3:1][OH:2].[Na+].[Cl:3][H:4]'', ''[CH3:1][Cl:3]''] \<and>
   remove_reagents sample_chem ''[CH3:1][OH:2].[Na+].[Cl:3][H:4]>>[CH3:1][Cl:3]''
     = Inr ''[CH3:1][OH].[Cl:3]H>>[CH3:1][Cl:3]'' \<and>
   remove_reagents sample_chem ''[CH3:1][OH].[Cl:3]H>>[CH3:1][Cl:3]''
     = Inr ''[CH3:1][OH].[Cl:3]H>>[CH3:1][Cl:3]''"
proof -
  let ?rxn = "''[CH3:1][OH:2].[Na+].[Cl:3][H:4]>>[CH3:1][Cl:3]''"
  let ?r = "''[CH3:1][OH:2].[Na+].[Cl:3][H:4]''"
  let ?p = "''[CH3:1][Cl:3]''"
  have form: "split ''>>'' ?rxn = [?r, ?p]"
    by (simp add: split.simps)
  have maps: "findall_maps ?p = [''1'', ''3'']"
    by (simp add: findall_maps_def is_digit_def)
  have parts: "split ''.'' ?r = [''[CH3:1][OH:2]'', ''[Na+]'', ''[Cl:3][H:4]'']"
    by (simp add: split.simps)
  have stable: "\<forall>s \<in> set (split ''.'' ?r). \<forall>m. MolFromSmiles sample_chem s = Some m \<longrightarrow>
                   snd (cleaned sample_chem (set (findall_maps ?p)) m) \<longrightarrow>
                   canonical_stable sample_chem (fst (cleaned sample_chem (set (findall_maps ?p)) m))"
    unfolding parts maps
    by (simp add: sample_chem_def cleaned_def canonical_stable_def map_numbers_def
        List.map_filter_simps bracket_atom_def split.simps upt_rec)
  have first: "remove_reagents sample_chem ?rxn = Inr ''[CH3:1][OH].[Cl:3]H>>[CH3:1][Cl:3]''"
    by (simp add: remove_reagents_def keep_reactant_def sample_chem_def split.simps item_def
        findall_maps_def is_digit_def bracket_atom_def List.map_filter_simps upt_rec)
  from remove_reagents_idempotent
    [OF sample_chem_clear sample_chem_atoms sample_chem_empty form stable] first form
  show ?thesis by auto
qed

section \<open>The filters after multiproduct_fixer\<close>

lemma find_sub_None_iff:
  "find_sub sep x = None \<longleftrightarrow> (\<forall>j \<le> length x. \<not> prefix sep (drop j x))"
proof
  assume "find_sub sep x = None"
  then show "\<forall>j \<le> length x. \<not> prefix sep (drop j x)"
    using find_sub_NoneD by blast
next
  assume a: "\<forall>j \<le> length x. \<not> prefix sep (drop j x)"
  show "find_sub sep x = None"
  proof (cases "find_sub sep x")
    case None
    then show ?thesis .
  next
    case (Some i)
    from find_sub_SomeD [OF Some] find_sub_bound [OF Some] a show ?thesis by auto
  qed
qed

lemma find_sub_None_take:
  assumes "find_sub sep s = None"
  shows "find_sub sep (take i s) = None"
  unfolding find_sub_None_iff
proof (intro allI impI)
  fix j assume "j \<le> length (take i s)"
  then have j: "j \<le> length s" by simp
  show "\<not> prefix sep (drop j (take i s))"
  proof
    assume p: "prefix sep (drop j (take i s))"
    have "prefix (drop j (take i s)) (drop j s)"
      by (simp add: drop_take take_is_prefix)
    with p have "prefix sep (drop j s)" by (rule prefix_order.trans)
    with find_sub_NoneD [OF assms j] show False by simp
  qed
qed

lemma find_sub_None_drop:
  assumes "find_sub sep s = None"
  shows "find_sub sep (drop k s) = None"
  unfolding find_sub_None_iff
proof (intro allI impI)
  fix j assume "j \<le> length (drop k s)"
  show "\<not> prefix sep (drop j (drop k s))"
  proof (cases "j + k \<le> length s")
    case True
    with find_sub_NoneD [OF assms, of "j + k"] show ?thesis by simp
  next
    case False
    then have "drop j (drop k s) = drop (length s) s" by simp
    with find_sub_NoneD [OF assms, of "length s"] show ?thesis by simp
  qed
qed

lemma find_sub_take_None:
  assumes "find_sub sep s = Some i" "sep \<noteq> []"
  shows "find_sub sep (take i s) = None"
  unfolding find_sub_None_iff
proof (intro allI impI)
  fix j assume j: "j \<le> length (take i s)"
  show "\<not> prefix sep (drop j (take i s))"
  proof
    assume p: "prefix sep (drop j (take i s))"
    from prefix_length_le [OF p] assms(2) j have "j < i" by (cases sep) auto
    have "prefix (drop j (take i s)) (drop j s)"
      by (simp add: drop_take take_is_prefix)
    with p have "prefix sep (drop j s)" by (rule prefix_order.trans)
    with find_sub_SomeD [OF assms(1)] \<open>j < i\<close> show False by simp
  qed
qed

lemma split_pieces_free:
  "x \<in> set (split sep2 s) \<Longrightarrow> find_sub sep s = None \<Longrightarrow> find_sub sep x = None"
proof (induction sep2 s rule: split.induct)
  case (1 sep2 s)
  show ?case
  proof (cases "find_sub sep2 s")
    case None
    with "1.prems" show ?thesis by (simp add: split_None)
  next
    case (Some i)
    show ?thesis
    proof (cases "sep2 = []")
      case True
      with "1.prems"(1) Some have "x = s" by (subst (asm) split.simps) simp
      with "1.prems"(2) show ?thesis by simp
    next
      case False
      with "1.prems"(1) Some
      have "x = take i s \<or> x \<in> set (split sep2 (drop (i + length sep2) s))"
        by (simp add: split_Some)
      then show ?thesis
      proof
        assume "x = take i s"
        with find_sub_None_take [OF "1.prems"(2)] show ?thesis by simp
      next
        assume "x \<in> set (split sep2 (drop (i + length sep2) s))"
        from "1.IH" [OF Some False this find_sub_None_drop [OF "1.prems"(2)]]
        show ?thesis .
      qed
    qed
  qed
qed

lemma second_segment_free:
  assumes "split sep s = r # p # rest"
  shows "find_sub sep p = None"
proof -
  from split_ConsD [OF assms] obtain i where
    i: "sep \<noteq> []" "split sep (drop (i + length sep) s) = p # rest" by blast
  let ?t = "drop (i + length sep) s"
  show ?thesis
  proof (cases "find_sub sep ?t")
    case None
    with i(2) show ?thesis by (simp add: split_None)
  next
    case (Some j)
    from split_Some [OF Some i(1)] i(2) have "p = take j ?t" by simp
    with find_sub_take_None [OF Some i(1)] show ?thesis by simp
  qed
qed

lemma heavy_atoms_Some_parsed:
  "heavy_atoms ch (map (MolFromSmiles ch) ps) = Some as \<Longrightarrow>
     \<forall>p \<in> set ps. MolFromSmiles ch p \<noteq> None"
proof (induction ps arbitrary: as)
  case Nil
  then show ?case by simp
next
  case (Cons p ps)
  then show ?case by (cases "MolFromSmiles ch p") auto
qed

lemma multiproduct_fixer_passed:
  assumes "multiproduct_fixer ch rxn = Inr out" and "\<not> contains ''Error'' out"
  shows "\<exists>r p rest. split ''>>'' out = r # p # rest \<and> MolFromSmiles ch p \<noteq> None"
proof -
  from assms(1) obtain ps where ps: "item (split ''>>'' rxn) 1 = Inr ps"
    by (auto simp: multiproduct_fixer_def split: sum.splits)
  then obtain r rest where sp: "split ''>>'' rxn = r # ps # rest"
    by (cases "split ''>>'' rxn"; cases "tl (split ''>>'' rxn)")
       (auto simp: item_def split: if_splits)
  have pfree: "find_sub ''>>'' ps = None" by (rule second_segment_free [OF sp])
  have sentinel: "contains ''Error'' ''Error: invalid product''"
    "contains ''Error'' ''Error: too many products''"
    "contains ''Error'' ''Error: product smiles error''"
    by (simp_all add: contains_def)
  from split_ConsD [OF sp] obtain i where
    i: "find_sub ''>>'' rxn = Some i" "r = take i rxn" by blast
  have two: "split ''>>'' (r @ ''>>'' @ q) = [r, q]" if "find_sub ''>>'' q = None" for q
  proof -
    from find_sub_bound [OF i(1)] have "length (take i rxn) = i" by simp
    with split_Some [OF find_sub_extend [OF i(1), of q]] i(2) that show ?thesis
      by (simp add: split_None)
  qed
  show ?thesis
  proof (cases "1 < length (split ''.'' ps)")
    case True
    show ?thesis
    proof (cases "heavy_atoms ch (map (MolFromSmiles ch) (split ''.'' ps))")
      case None
      with True sp assms sentinel show ?thesis
        by (simp add: multiproduct_fixer_def item_def)
    next
      case (Some as)
      let ?new = "map fst (filter snd (zip (split ''.'' ps) (map (\<lambda>atoms. atoms > 5) as)))"
      show ?thesis
      proof (cases "length ?new = 1")
        case False
        then have "length (filter snd (zip (split ''.'' ps) (map (\<lambda>atoms. atoms > 5) as))) \<noteq> 1"
          by simp
        with Some True sp assms sentinel show ?thesis
          by (simp add: multiproduct_fixer_def item_def Let_def)
      next
        case l: True
        then obtain q where q: "?new = [q]" by (cases ?new) auto
        from arg_cong [OF q, of length]
        have "length (filter snd (zip (split ''.'' ps) (map (\<lambda>atoms. atoms > 5) as))) = 1"
          by simp
        with q Some True sp assms(1) have out: "out = r @ ''>>'' @ q"
          by (simp add: multiproduct_fixer_def item_def Let_def)
        have "q \<in> set ?new" using q by simp
        then have qin: "q \<in> set (split ''.'' ps)"
          by (auto dest: set_zip_leftD)
        from split_pieces_free [OF qin pfree] have "find_sub ''>>'' q = None" .
        from two [OF this] heavy_atoms_Some_parsed [OF Some] qin out
        show ?thesis by blast
      qed
    qed
  next
    case False
    with split_not_Nil [of "''.''" ps] obtain p0 where p0: "split ''.'' ps = [p0]"
      by (cases "split ''.'' ps") auto
    from split_single [OF p0] have "p0 = ps" by simp
    with p0 False sp assms sentinel
    have out: "out = rxn" and parsed: "MolFromSmiles ch ps \<noteq> None"
      by (auto simp: multiproduct_fixer_def item_def split: if_splits)
    with sp show ?thesis by blast
  qed
qed

text \<open>
  The rows \<^verbatim>\<open>clean_dataset\<close> hands to \<^verbatim>\<open>no_carbon\<close> and
  \<^verbatim>\<open>remove_stereoalchemy\<close> are the strings \<^verbatim>\<open>multiproduct_fixer\<close> returned that do
  not contain \<^verbatim>\<open>Error\<close>. On every such string both functions return a string: the
  product segment is there and has been parsed already.
\<close>

theorem filters_after_multiproduct_fixer:
  assumes "multiproduct_fixer ch rxn = Inr out" and "\<not> contains ''Error'' out"
  shows "(\<exists>res. no_carbon ch out = Inr res) \<and> (\<exists>res. remove_stereoalchemy ch out = Inr res)"
proof -
  from multiproduct_fixer_passed [OF assms] obtain r p rest m where
    "split ''>>'' out = r # p # rest" "MolFromSmiles ch p = Some m" by auto
  from parsed_product_returns [OF this] show ?thesis by simp
qed

theorem filters_after_multiproduct_fixer_witness:
  "multiproduct_fixer sample_chem ''CCCCCCO.CO>>CC.CCCCCC'' = Inr ''CCCCCCO.CO>>CCCCCC'' \<and>
   \<not> contains ''Error'' ''CCCCCCO.CO>>CCCCCC'' \<and>
   (\<exists>res. no_carbon sample_chem ''CCCCCCO.CO>>CCCCCC'' = Inr res) \<and>
   (\<exists>res. remove_stereoalchemy sample_chem ''CCCCCCO.CO>>CCCCCC'' = Inr res)"
proof -
  have m: "multiproduct_fixer sample_chem ''CCCCCCO.CO>>CC.CCCCCC'' = Inr ''CCCCCCO.CO>>CCCCCC''"
    by (simp add: multiproduct_fixer_def sample_chem_def split.simps item_def is_heavy_def)
  have e: "\<not> contains ''Error'' ''CCCCCCO.CO>>CCCCCC''"
    by (simp add: contains_def)
  from filters_after_multiproduct_fixer [OF m e] m e show ?thesis by simp
qed

end
